theory Spec2Isabelle
  imports Main "HOL-Library.Signed_Division" "HOL-Library.Word"
begin

section \<open>The shared counter program p2.c as an interleaving transition system\<close>

text \<open>
  The program of \<^verbatim>\<open>src/p2.c\<close> has one coordinator (the function \<^verbatim>\<open>main\<close>) and the
  worker threads it creates (the function \<^verbatim>\<open>thread\<close>). Each task is modelled by a
  program counter with one value per shared-memory statement of the source, and a run of
  the program is a sequence of atomic steps, each taken by one task. The operations on
  \<^verbatim>\<open>volatile long\<close> fields (\<^verbatim>\<open>counter++\<close>, \<^verbatim>\<open>threads++\<close>, \<^verbatim>\<open>threads--\<close>) are a read
  followed by a write, so that an unguarded interleaving could lose an update. Memory is
  sequentially consistent. The diagnostic \<^verbatim>\<open>printf\<close> calls have no effect on the state and
  are left out; the text of the final result line is recorded in the field \<open>line\<close>, its
  two integer arguments in the field \<open>printed\<close>, and the message of a failed
  initialisation in the field \<open>complaint\<close>. The counters and the arguments of the program
  are modelled by unbounded integers: the section on ranges shows that none leaves the
  range of its C type (with \<^verbatim>\<open>long\<close> of 64 bits). The readings of the clocks come from
  outside and can be any value of their type, so they and the arithmetic of \<^verbatim>\<open>all_times\<close>
  on them are words of 64 bits.
\<close>

subsection \<open>Data\<close>

datatype task = Coordinator | Worker nat

text \<open>A \<^verbatim>\<open>pthread_mutex_t\<close>: unlocked, locked by a task, or destroyed.\<close>

datatype mutex = Free | Held task | Destroyed

text \<open>
  \<^verbatim>\<open>pthread_mutex_destroy\<close> ends a mutex that is unlocked. The program calls it on
  \<^verbatim>\<open>threadLock\<close> (line 69) and on \<^verbatim>\<open>mainLock\<close> (line 185) while the caller has the mutex
  locked, and it has no \<^verbatim>\<open>pthread_mutex_unlock\<close> for either afterwards. POSIX leaves the
  destruction of a locked mutex undefined; the C library refuses it (\<^verbatim>\<open>EBUSY\<close>, which the
  program does not look at) and the mutex stays locked. So the call leaves a locked mutex
  as it is, and its holder goes on holding it.
\<close>

definition destroy :: "mutex \<Rightarrow> mutex" where
  "destroy m = (case m of Free \<Rightarrow> Destroyed | Held k \<Rightarrow> Held k | Destroyed \<Rightarrow> Destroyed)"

datatype lock_id = CountLock | DecreLock | MainLock | ThreadLock

text \<open>Program points of \<^verbatim>\<open>thread\<close> (p2.c, lines 58 to 96).\<close>

datatype wpc =
    W_LockMain        \<comment> \<open>line 60: \<^verbatim>\<open>pthread_mutex_lock(&mainLock)\<close>\<close>
  | W_TestFirst       \<comment> \<open>line 63: \<^verbatim>\<open>if(firstRun)\<close>\<close>
  | W_LockThread      \<comment> \<open>line 64: \<^verbatim>\<open>pthread_mutex_lock(&threadLock)\<close>\<close>
  | W_ClearFirst      \<comment> \<open>line 68: \<^verbatim>\<open>firstRun = 0\<close>\<close>
  | W_DestroyThread   \<comment> \<open>line 69: \<^verbatim>\<open>pthread_mutex_destroy(&threadLock)\<close>\<close>
  | W_Spin            \<comment> \<open>line 73: \<^verbatim>\<open>while (state->start == 0)\<close>\<close>
  | W_CondWait        \<comment> \<open>line 77: \<^verbatim>\<open>pthread_cond_wait\<close>, releasing \<^verbatim>\<open>mainLock\<close>\<close>
  | W_Waiting         \<comment> \<open>line 77: blocked on \<^verbatim>\<open>waitCond\<close>\<close>
  | W_Reacquire       \<comment> \<open>line 77: woken, taking \<^verbatim>\<open>mainLock\<close> again\<close>
  | W_LoopTest        \<comment> \<open>line 78: \<^verbatim>\<open>i < state->num_loops\<close>\<close>
  | W_LockCount       \<comment> \<open>line 79: \<^verbatim>\<open>pthread_mutex_lock(&countLock)\<close>\<close>
  | W_IncRead         \<comment> \<open>line 80: the read of \<^verbatim>\<open>state->counter++\<close>\<close>
  | W_IncWrite        \<comment> \<open>line 80: the write of \<^verbatim>\<open>state->counter++\<close>\<close>
  | W_UnlockCount     \<comment> \<open>line 81: \<^verbatim>\<open>pthread_mutex_unlock(&countLock)\<close>, then \<^verbatim>\<open>i++\<close>\<close>
  | W_UnlockMain      \<comment> \<open>line 84: \<^verbatim>\<open>pthread_mutex_unlock(&mainLock)\<close>\<close>
  | W_LockDecre       \<comment> \<open>line 87: \<^verbatim>\<open>pthread_mutex_lock(&decreLock)\<close>\<close>
  | W_DecRead         \<comment> \<open>line 89: the read of \<^verbatim>\<open>state->threads--\<close>\<close>
  | W_DecWrite        \<comment> \<open>line 89: the write of \<^verbatim>\<open>state->threads--\<close>\<close>
  | W_TestZero        \<comment> \<open>line 91: \<^verbatim>\<open>if( (state->threads) == 0 )\<close>\<close>
  | W_Signal          \<comment> \<open>line 92: \<^verbatim>\<open>pthread_cond_signal(&waitCond)\<close>\<close>
  | W_UnlockDecre     \<comment> \<open>line 94: \<^verbatim>\<open>pthread_mutex_unlock(&decreLock)\<close>\<close>
  | W_Done            \<comment> \<open>line 95: \<^verbatim>\<open>return NULL\<close>\<close>

text \<open>Program points of \<^verbatim>\<open>main\<close> (p2.c, lines 121 to 191).\<close>

datatype mpc =
    M_InitCount       \<comment> \<open>line 124\<close>
  | M_InitDecre       \<comment> \<open>line 128\<close>
  | M_InitMain        \<comment> \<open>line 132\<close>
  | M_InitThread      \<comment> \<open>line 136\<close>
  | M_Parse           \<comment> \<open>lines 142 to 145\<close>
  | M_LockThread      \<comment> \<open>line 148\<close>
  | M_SpawnTest       \<comment> \<open>line 149: \<^verbatim>\<open>while (state.threads < num_threads)\<close>; at its end the
                          reads of the clocks, lines 160 and 161\<close>
  | M_Create          \<comment> \<open>line 151: \<^verbatim>\<open>pthread_create\<close>\<close>
  | M_IncRead         \<comment> \<open>line 152: the read of \<^verbatim>\<open>state.threads++\<close>\<close>
  | M_IncWrite        \<comment> \<open>line 152: the write of \<^verbatim>\<open>state.threads++\<close>\<close>
  | M_SetStart        \<comment> \<open>line 162: \<^verbatim>\<open>state.start = 1\<close>\<close>
  | M_UnlockThread    \<comment> \<open>line 168\<close>
  | M_Sleep           \<comment> \<open>line 171: \<^verbatim>\<open>sleep(1)\<close>\<close>
  | M_LockMain        \<comment> \<open>line 172\<close>
  | M_WaitTest        \<comment> \<open>lines 176 to 179: \<^verbatim>\<open>while (state.threads > 0)\<close> with its \<^verbatim>\<open>sleep(1)\<close>\<close>
  | M_Print           \<comment> \<open>lines 181 to 183: the result line\<close>
  | M_DestroyMain     \<comment> \<open>line 185\<close>
  | M_Exit int        \<comment> \<open>\<^verbatim>\<open>main\<close> has returned this value\<close>
  | M_Undefined       \<comment> \<open>\<^verbatim>\<open>atoi\<close> was given a number that no \<^verbatim>\<open>int\<close> holds\<close>

text \<open>The locals of one worker: its program point, the loop variable \<^verbatim>\<open>i\<close>, and the
  value it last read from a \<^verbatim>\<open>volatile\<close> field.\<close>

record worker =
  wpc :: wpc
  loop_i :: int
  reg :: int

text \<open>The types \<^verbatim>\<open>long\<close>, \<^verbatim>\<open>time_t\<close>, \<^verbatim>\<open>suseconds_t\<close> and \<^verbatim>\<open>clock_t\<close> of the clock
  readings, and the fields of \<^verbatim>\<open>struct timeval\<close>.\<close>

type_synonym long = "64 word"

record timeval =
  tv_sec :: long
  tv_usec :: long

text \<open>The fields of \<^verbatim>\<open>struct state_struct\<close>, the file-scope variables, and the locals of
  \<^verbatim>\<open>main\<close> (its \<^verbatim>\<open>struct timeval start\<close> is \<open>start_time\<close> here). The waiters of
  \<^verbatim>\<open>waitCond\<close> are the workers at \<open>W_Waiting\<close>.\<close>

record state =
  start :: int
  counter :: int
  threads :: int
  num_loops :: int
  num_threads :: int
  firstRun :: int
  countLock :: mutex
  decreLock :: mutex
  mainLock :: mutex
  threadLock :: mutex
  mpc :: mpc
  mreg :: int
  workers :: "worker list"
  printed :: "(int \<times> int) option"
  complaint :: "string option"
  start_time :: timeval
  startc :: long
  line :: "string option"

text \<open>
  What the program gets from outside: its argument vector (with the program name first),
  the mutexes whose \<^verbatim>\<open>pthread_mutex_init\<close> fails, whether \<^verbatim>\<open>pthread_cond_wait\<close> may
  return without a signal (POSIX permits such spurious wakeups), and what the clocks
  show: \<^verbatim>\<open>gettimeofday\<close> and \<^verbatim>\<open>clock\<close> in \<^verbatim>\<open>main\<close> (lines 160 and 161), and again in
  \<^verbatim>\<open>all_times\<close> (lines 110 and 113). \<^verbatim>\<open>pthread_create\<close> is taken to succeed: the source
  ignores its result.
\<close>

record config =
  argv :: "string list"
  init_fails :: "lock_id list"
  spurious :: bool
  time_start :: timeval
  clock_start :: long
  time_finish :: timeval
  clock_finish :: long

subsection \<open>Arguments\<close>

definition LOOPS :: int where
  "LOOPS = 10 * 1000 * 1000"

definition THREADS :: int where
  "THREADS = 2"

definition INT_MIN :: int where
  "INT_MIN = - 2147483648"

definition INT_MAX :: int where
  "INT_MAX = 2147483647"

definition isspace :: "char \<Rightarrow> bool" where
  "isspace c = (c \<in> set [CHR '' '', CHR 0x09, CHR 0x0A, CHR 0x0B, CHR 0x0C, CHR 0x0D])"

definition isdigit :: "char \<Rightarrow> bool" where
  "isdigit c = (48 \<le> (of_char c :: nat) \<and> (of_char c :: nat) \<le> 57)"

definition digit_val :: "char \<Rightarrow> int" where
  "digit_val c = int (of_char c) - 48"

text \<open>The digits at the front of a string, read in base ten onto an accumulator.\<close>

fun digits_acc :: "int \<Rightarrow> string \<Rightarrow> int" where
  "digits_acc acc [] = acc"
| "digits_acc acc (c # cs) =
     (if isdigit c then digits_acc (10 * acc + digit_val c) cs else acc)"

text \<open>
  The C library's \<^verbatim>\<open>atoi\<close>: white space is skipped, then an optional sign, then the
  longest run of decimal digits is converted; with no digit the result is 0. The C
  standard leaves the behaviour undefined when the value is not an \<^verbatim>\<open>int\<close>: that is
  \<open>None\<close> here.
\<close>

definition atoi :: "string \<Rightarrow> int option" where
  "atoi str =
     (let s = dropWhile isspace str;
          v = (case s of
                 [] \<Rightarrow> 0
               | c # cs \<Rightarrow>
                   if c = CHR ''-'' then - digits_acc 0 cs
                   else if c = CHR ''+'' then digits_acc 0 cs
                   else digits_acc 0 s)
      in if INT_MIN \<le> v \<and> v \<le> INT_MAX then Some v else None)"

text \<open>Lines 142 and 145: the two conditional expressions over \<^verbatim>\<open>argc\<close> and \<^verbatim>\<open>argv\<close>.\<close>

definition argc :: "config \<Rightarrow> int" where
  "argc cfg = int (length (argv cfg))"

definition parse_threads :: "config \<Rightarrow> int option" where
  "parse_threads cfg = (if argc cfg \<le> 1 then Some THREADS else atoi (argv cfg ! 1))"

definition parse_loops :: "config \<Rightarrow> int option" where
  "parse_loops cfg = (if argc cfg \<le> 2 then Some LOOPS else atoi (argv cfg ! 2))"

subsection \<open>Output\<close>

text \<open>The conversions \<^verbatim>\<open>%ld\<close> and \<^verbatim>\<open>%06ld\<close> of \<^verbatim>\<open>printf\<close>.\<close>

definition digit_char :: "nat \<Rightarrow> char" where
  "digit_char k = char_of (48 + k)"

fun dec :: "nat \<Rightarrow> string" where
  "dec n = (if n < 10 then [digit_char n] else dec (n div 10) @ [digit_char (n mod 10)])"

declare dec.simps [simp del]

definition fmt_ld :: "int \<Rightarrow> string" where
  "fmt_ld n = (if n < 0 then CHR ''-'' # dec (nat (- n)) else dec (nat n))"

definition fmt_06ld :: "int \<Rightarrow> string" where
  "fmt_06ld n =
     (let d = dec (nat \<bar>n\<bar>) in
      if n < 0 then CHR ''-'' # replicate (5 - length d) CHR ''0'' @ d
      else replicate (6 - length d) CHR ''0'' @ d)"

text \<open>The macros \<^verbatim>\<open>US_PER_S\<close> of line 108 and \<^verbatim>\<open>CLOCKS_PER_SEC\<close> of \<^verbatim>\<open>time.h\<close>, which POSIX
  fixes at one million.\<close>

definition US_PER_S :: int where
  "US_PER_S = 1000 * 1000"

definition CLOCKS_PER_SEC :: int where
  "CLOCKS_PER_SEC = 1000000"

text \<open>
  \<^verbatim>\<open>all_times\<close> (p2.c, lines 105 to 119), given the two readings it takes itself. The
  variables \<^verbatim>\<open>delta\<close> and \<^verbatim>\<open>delta_cpu\<close> are \<open>elapsed\<close> and \<open>elapsed_cpu\<close>. Their
  arithmetic is that of \<^verbatim>\<open>long\<close>: sums, differences and products are taken modulo
  \<open>2 ^ 64\<close>, as the machine does, the value of a word is read with \<open>sint\<close>, and the
  division and the remainder truncate towards zero. The text never fills the array of
  1000 characters that \<^verbatim>\<open>snprintf\<close> writes it to.
\<close>

definition elapsed :: "timeval \<Rightarrow> timeval \<Rightarrow> long" where
  "elapsed t0 finish =
     (tv_sec finish - tv_sec t0) * of_int US_PER_S + tv_usec finish - tv_usec t0"

definition elapsed_cpu :: "long \<Rightarrow> long \<Rightarrow> long" where
  "elapsed_cpu c0 now = of_int (sint ((now - c0) * of_int US_PER_S) sdiv CLOCKS_PER_SEC)"

definition all_times :: "timeval \<Rightarrow> long \<Rightarrow> timeval \<Rightarrow> long \<Rightarrow> string" where
  "all_times t0 c0 finish now =
     (let delta = sint (elapsed t0 finish);
          delta_cpu = sint (elapsed_cpu c0 now)
      in fmt_ld (delta sdiv US_PER_S) @ ''.'' @ fmt_06ld (delta smod US_PER_S)
         @ ''s, cpu time ''
         @ fmt_ld (delta_cpu sdiv US_PER_S) @ ''.'' @ fmt_06ld (delta_cpu smod US_PER_S))"

text \<open>The \<^verbatim>\<open>printf\<close> of lines 181 to 183.\<close>

definition result_line :: "int \<Rightarrow> int \<Rightarrow> string \<Rightarrow> string" where
  "result_line c e tm =
     fmt_ld c @ '' total count, expected '' @ fmt_ld e @ '', time '' @ tm
     @ ''s'' @ [CHR 0x0A]"

subsection \<open>Steps\<close>

definition init_state :: state where
  "init_state =
     \<lparr>start = 0, counter = 0, threads = 0, num_loops = 0, num_threads = 0, firstRun = 1,
      countLock = Free, decreLock = Free, mainLock = Free, threadLock = Free,
      mpc = M_InitCount, mreg = 0, workers = [], printed = None,
      complaint = None, start_time = \<lparr>tv_sec = 0, tv_usec = 0\<rparr>, startc = 0,
      line = None\<rparr>"

definition new_worker :: worker where
  "new_worker = \<lparr>wpc = W_LockMain, loop_i = 0, reg = 0\<rparr>"

definition goto :: "mpc \<Rightarrow> state \<Rightarrow> state" where
  "goto p s = s\<lparr>mpc := p\<rparr>"

text \<open>Lines 124 to 139: \<^verbatim>\<open>pthread_mutex_init\<close> of one mutex; on failure the message and
  \<^verbatim>\<open>return -1\<close>.\<close>

fun init_message :: "lock_id \<Rightarrow> string" where
  "init_message CountLock = ''countLock mutex initialization failed'' @ [CHR 0x0A]"
| "init_message DecreLock = ''decreLock mutex initialization failed'' @ [CHR 0x0A]"
| "init_message MainLock = ''mainLock mutex initialization failed'' @ [CHR 0x0A]"
| "init_message ThreadLock = ''threadLock mutex initialization failed'' @ [CHR 0x0A]"

fun set_free :: "lock_id \<Rightarrow> state \<Rightarrow> state" where
  "set_free CountLock s = s\<lparr>countLock := Free\<rparr>"
| "set_free DecreLock s = s\<lparr>decreLock := Free\<rparr>"
| "set_free MainLock s = s\<lparr>mainLock := Free\<rparr>"
| "set_free ThreadLock s = s\<lparr>threadLock := Free\<rparr>"

definition init_step :: "config \<Rightarrow> lock_id \<Rightarrow> mpc \<Rightarrow> state \<Rightarrow> state" where
  "init_step cfg l p s =
     (if l \<in> set (init_fails cfg)
      then s\<lparr>complaint := Some (init_message l), mpc := M_Exit (- 1)\<rparr>
      else goto p (set_free l s))"

text \<open>One step of \<^verbatim>\<open>main\<close>; \<open>None\<close> when it is blocked or has returned.\<close>

definition main_step :: "config \<Rightarrow> state \<Rightarrow> state option" where
  "main_step cfg s =
     (case mpc s of
        M_InitCount \<Rightarrow> Some (init_step cfg CountLock M_InitDecre s)
      | M_InitDecre \<Rightarrow> Some (init_step cfg DecreLock M_InitMain s)
      | M_InitMain \<Rightarrow> Some (init_step cfg MainLock M_InitThread s)
      | M_InitThread \<Rightarrow> Some (init_step cfg ThreadLock M_Parse s)
      | M_Parse \<Rightarrow>
          (case (parse_threads cfg, parse_loops cfg) of
             (Some n, Some l) \<Rightarrow>
               Some (s\<lparr>num_threads := n, start := 0, counter := 0, threads := 0,
                       num_loops := l, mpc := M_LockThread\<rparr>)
           | _ \<Rightarrow> Some (goto M_Undefined s))
      | M_LockThread \<Rightarrow>
          (if threadLock s = Free
           then Some (s\<lparr>threadLock := Held Coordinator, mpc := M_SpawnTest\<rparr>) else None)
      | M_SpawnTest \<Rightarrow>
          (if threads s < num_threads s then Some (goto M_Create s)
           else Some (s\<lparr>start_time := time_start cfg, startc := clock_start cfg,
                         mpc := M_SetStart\<rparr>))
      | M_Create \<Rightarrow> Some (s\<lparr>workers := workers s @ [new_worker], mpc := M_IncRead\<rparr>)
      | M_IncRead \<Rightarrow> Some (s\<lparr>mreg := threads s, mpc := M_IncWrite\<rparr>)
      | M_IncWrite \<Rightarrow> Some (s\<lparr>threads := mreg s + 1, mpc := M_SpawnTest\<rparr>)
      | M_SetStart \<Rightarrow> Some (s\<lparr>start := 1, mpc := M_UnlockThread\<rparr>)
      | M_UnlockThread \<Rightarrow>
          (if threadLock s = Held Coordinator
           then Some (s\<lparr>threadLock := Free, mpc := M_Sleep\<rparr>) else None)
      | M_Sleep \<Rightarrow> Some (goto M_LockMain s)
      | M_LockMain \<Rightarrow>
          (if mainLock s = Free
           then Some (s\<lparr>mainLock := Held Coordinator, mpc := M_WaitTest\<rparr>) else None)
      | M_WaitTest \<Rightarrow> Some (goto (if threads s > 0 then M_WaitTest else M_Print) s)
      | M_Print \<Rightarrow>
          Some (s\<lparr>printed := Some (counter s, num_loops s * num_threads s),
                  line := Some (result_line (counter s) (num_loops s * num_threads s)
                            (all_times (start_time s) (startc s)
                               (time_finish cfg) (clock_finish cfg))),
                  mpc := M_DestroyMain\<rparr>)
      | M_DestroyMain \<Rightarrow> Some (s\<lparr>mainLock := destroy (mainLock s), mpc := M_Exit 0\<rparr>)
      | M_Exit v \<Rightarrow> None
      | M_Undefined \<Rightarrow> None)"

definition put_worker :: "nat \<Rightarrow> worker \<Rightarrow> state \<Rightarrow> state" where
  "put_worker t w s = s\<lparr>workers := (workers s)[t := w]\<rparr>"

definition jump :: "nat \<Rightarrow> wpc \<Rightarrow> state \<Rightarrow> state" where
  "jump t p s = put_worker t ((workers s ! t)\<lparr>wpc := p\<rparr>) s"

definition waiting :: "state \<Rightarrow> bool" where
  "waiting s = (\<exists>w \<in> set (workers s). wpc w = W_Waiting)"

text \<open>One step of worker \<open>t\<close>; \<open>None\<close> when it is blocked or has returned. A lock step is
  enabled when the mutex is free, an unlock step when the worker holds the mutex.\<close>

definition thread_step :: "nat \<Rightarrow> state \<Rightarrow> state option" where
  "thread_step t s =
     (let w = workers s ! t in
      case wpc w of
        W_LockMain \<Rightarrow>
          (if mainLock s = Free
           then Some (jump t W_TestFirst (s\<lparr>mainLock := Held (Worker t)\<rparr>)) else None)
      | W_TestFirst \<Rightarrow> Some (jump t (if firstRun s \<noteq> 0 then W_LockThread else W_Spin) s)
      | W_LockThread \<Rightarrow>
          (if threadLock s = Free
           then Some (jump t W_ClearFirst (s\<lparr>threadLock := Held (Worker t)\<rparr>)) else None)
      | W_ClearFirst \<Rightarrow> Some (jump t W_DestroyThread (s\<lparr>firstRun := 0\<rparr>))
      | W_DestroyThread \<Rightarrow> Some (jump t W_Spin (s\<lparr>threadLock := destroy (threadLock s)\<rparr>))
      | W_Spin \<Rightarrow> Some (jump t (if start s = 0 then W_Spin else W_CondWait) s)
      | W_CondWait \<Rightarrow>
          (if mainLock s = Held (Worker t)
           then Some (jump t W_Waiting (s\<lparr>mainLock := Free\<rparr>)) else None)
      | W_Waiting \<Rightarrow> None
      | W_Reacquire \<Rightarrow>
          (if mainLock s = Free
           then Some (put_worker t (w\<lparr>wpc := W_LoopTest, loop_i := 0\<rparr>)
                        (s\<lparr>mainLock := Held (Worker t)\<rparr>))
           else None)
      | W_LoopTest \<Rightarrow>
          Some (jump t (if loop_i w < num_loops s then W_LockCount else W_UnlockMain) s)
      | W_LockCount \<Rightarrow>
          (if countLock s = Free
           then Some (jump t W_IncRead (s\<lparr>countLock := Held (Worker t)\<rparr>)) else None)
      | W_IncRead \<Rightarrow> Some (put_worker t (w\<lparr>wpc := W_IncWrite, reg := counter s\<rparr>) s)
      | W_IncWrite \<Rightarrow> Some (jump t W_UnlockCount (s\<lparr>counter := reg w + 1\<rparr>))
      | W_UnlockCount \<Rightarrow>
          (if countLock s = Held (Worker t)
           then Some (put_worker t (w\<lparr>wpc := W_LoopTest, loop_i := loop_i w + 1\<rparr>)
                        (s\<lparr>countLock := Free\<rparr>))
           else None)
      | W_UnlockMain \<Rightarrow>
          (if mainLock s = Held (Worker t)
           then Some (jump t W_LockDecre (s\<lparr>mainLock := Free\<rparr>)) else None)
      | W_LockDecre \<Rightarrow>
          (if decreLock s = Free
           then Some (jump t W_DecRead (s\<lparr>decreLock := Held (Worker t)\<rparr>)) else None)
      | W_DecRead \<Rightarrow> Some (put_worker t (w\<lparr>wpc := W_DecWrite, reg := threads s\<rparr>) s)
      | W_DecWrite \<Rightarrow> Some (jump t W_TestZero (s\<lparr>threads := reg w - 1\<rparr>))
      | W_TestZero \<Rightarrow> Some (jump t (if threads s = 0 then W_Signal else W_UnlockDecre) s)
      | W_Signal \<Rightarrow> (if waiting s then None else Some (jump t W_UnlockDecre s))
      | W_UnlockDecre \<Rightarrow>
          (if decreLock s = Held (Worker t)
           then Some (jump t W_Done (s\<lparr>decreLock := Free\<rparr>)) else None)
      | W_Done \<Rightarrow> None)"

text \<open>The process lives until \<^verbatim>\<open>main\<close> returns; then every thread is gone.\<close>

definition alive :: "state \<Rightarrow> bool" where
  "alive s = (case mpc s of M_Exit v \<Rightarrow> False | M_Undefined \<Rightarrow> False | _ \<Rightarrow> True)"

text \<open>
  The scheduler's choices. \<open>A_Signal t u\<close> is \<^verbatim>\<open>pthread_cond_signal\<close> by worker \<open>t\<close>
  waking the waiter \<open>u\<close> (with no waiter the signal is an ordinary step of \<open>t\<close> without
  effect); \<open>A_Spurious u\<close> is a wakeup of the waiter \<open>u\<close> that no signal caused.
\<close>

datatype action = A_Main | A_Thread nat | A_Signal nat nat | A_Spurious nat

definition exec :: "config \<Rightarrow> action \<Rightarrow> state \<Rightarrow> state option" where
  "exec cfg a s =
     (case a of
        A_Main \<Rightarrow> main_step cfg s
      | A_Thread t \<Rightarrow>
          (if t < length (workers s) \<and> alive s then thread_step t s else None)
      | A_Signal t u \<Rightarrow>
          (if t < length (workers s) \<and> u < length (workers s) \<and> alive s
              \<and> wpc (workers s ! t) = W_Signal \<and> wpc (workers s ! u) = W_Waiting
           then Some (jump t W_UnlockDecre (jump u W_Reacquire s)) else None)
      | A_Spurious u \<Rightarrow>
          (if spurious cfg \<and> u < length (workers s) \<and> alive s
              \<and> wpc (workers s ! u) = W_Waiting
           then Some (jump u W_Reacquire s) else None))"

fun run :: "config \<Rightarrow> action list \<Rightarrow> state \<Rightarrow> state option" where
  "run cfg [] s = Some s"
| "run cfg (a # as) s = (case exec cfg a s of None \<Rightarrow> None | Some s' \<Rightarrow> run cfg as s')"

inductive reachable :: "config \<Rightarrow> state \<Rightarrow> bool" for cfg :: config where
  reach_init: "reachable cfg init_state"
| reach_step: "reachable cfg s \<Longrightarrow> exec cfg a s = Some s' \<Longrightarrow> reachable cfg s'"

section \<open>Invariants\<close>

subsection \<open>Classes of program points\<close>

text \<open>The program points of \<^verbatim>\<open>thread\<close> between a lock of a mutex and its unlock (or its
  release by \<^verbatim>\<open>pthread_cond_wait\<close>). For \<^verbatim>\<open>threadLock\<close>, which the worker that locks it
  never unlocks, \<open>takes_thread\<close> gives the two points that only this worker visits.\<close>

fun holds_main :: "wpc \<Rightarrow> bool" where
  "holds_main W_LockMain = False"
| "holds_main W_Waiting = False"
| "holds_main W_Reacquire = False"
| "holds_main W_LockDecre = False"
| "holds_main W_DecRead = False"
| "holds_main W_DecWrite = False"
| "holds_main W_TestZero = False"
| "holds_main W_Signal = False"
| "holds_main W_UnlockDecre = False"
| "holds_main W_Done = False"
| "holds_main _ = True"

fun holds_count :: "wpc \<Rightarrow> bool" where
  "holds_count W_IncRead = True"
| "holds_count W_IncWrite = True"
| "holds_count W_UnlockCount = True"
| "holds_count _ = False"

fun holds_decre :: "wpc \<Rightarrow> bool" where
  "holds_decre W_DecRead = True"
| "holds_decre W_DecWrite = True"
| "holds_decre W_TestZero = True"
| "holds_decre W_Signal = True"
| "holds_decre W_UnlockDecre = True"
| "holds_decre _ = False"

fun takes_thread :: "wpc \<Rightarrow> bool" where
  "takes_thread W_ClearFirst = True"
| "takes_thread W_DestroyThread = True"
| "takes_thread _ = False"

text \<open>The program points of a worker before it has taken \<^verbatim>\<open>threadLock\<close> or seen
  \<^verbatim>\<open>firstRun\<close> cleared; it cannot be further while \<^verbatim>\<open>main\<close> spawns. Then the body of
  the loop, the points after the loop, the points after the return of
  \<^verbatim>\<open>pthread_cond_wait\<close>, and the points after the decrement of \<^verbatim>\<open>state->threads\<close>.\<close>

fun early :: "wpc \<Rightarrow> bool" where
  "early W_LockMain = True"
| "early W_TestFirst = True"
| "early W_LockThread = True"
| "early _ = False"

fun in_body :: "wpc \<Rightarrow> bool" where
  "in_body W_LockCount = True"
| "in_body W_IncRead = True"
| "in_body W_IncWrite = True"
| "in_body W_UnlockCount = True"
| "in_body _ = False"

fun post_loop :: "wpc \<Rightarrow> bool" where
  "post_loop W_UnlockMain = True"
| "post_loop W_LockDecre = True"
| "post_loop W_DecRead = True"
| "post_loop W_DecWrite = True"
| "post_loop W_TestZero = True"
| "post_loop W_Signal = True"
| "post_loop W_UnlockDecre = True"
| "post_loop W_Done = True"
| "post_loop _ = False"

fun after_wait :: "wpc \<Rightarrow> bool" where
  "after_wait W_LockMain = False"
| "after_wait W_TestFirst = False"
| "after_wait W_LockThread = False"
| "after_wait W_ClearFirst = False"
| "after_wait W_DestroyThread = False"
| "after_wait W_Spin = False"
| "after_wait W_CondWait = False"
| "after_wait W_Waiting = False"
| "after_wait _ = True"

fun departed :: "wpc \<Rightarrow> bool" where
  "departed W_TestZero = True"
| "departed W_Signal = True"
| "departed W_UnlockDecre = True"
| "departed W_Done = True"
| "departed _ = False"

text \<open>The increments of the counter that a worker has made: one for each iteration it has
  finished, and one more when it has written the counter in the current one. And what a
  worker adds to the live-worker count: 1 until it has written its decrement.\<close>

definition increments :: "worker \<Rightarrow> int" where
  "increments w = loop_i w + (if wpc w = W_UnlockCount then 1 else 0)"

definition live :: "worker \<Rightarrow> int" where
  "live w = (if departed (wpc w) then 0 else 1)"

text \<open>The program points of \<^verbatim>\<open>main\<close>: before the spawn loop (or after a failure there),
  from the lock of \<^verbatim>\<open>threadLock\<close> to its unlock, after that unlock; after line 162;
  holding \<^verbatim>\<open>mainLock\<close> (from line 172 on, for it is never unlocked); after the wait loop; after the result line; between the test of
  the spawn loop and the write of \<^verbatim>\<open>state.threads++\<close>. A worker that has been created and
  not yet counted is \<open>pending\<close>.\<close>

fun pre_spawn :: "mpc \<Rightarrow> bool" where
  "pre_spawn M_InitCount = True"
| "pre_spawn M_InitDecre = True"
| "pre_spawn M_InitMain = True"
| "pre_spawn M_InitThread = True"
| "pre_spawn M_Parse = True"
| "pre_spawn M_LockThread = True"
| "pre_spawn M_Undefined = True"
| "pre_spawn (M_Exit v) = (v \<noteq> 0)"
| "pre_spawn _ = False"

fun spawning :: "mpc \<Rightarrow> bool" where
  "spawning M_SpawnTest = True"
| "spawning M_Create = True"
| "spawning M_IncRead = True"
| "spawning M_IncWrite = True"
| "spawning M_SetStart = True"
| "spawning M_UnlockThread = True"
| "spawning _ = False"

fun after_spawn :: "mpc \<Rightarrow> bool" where
  "after_spawn M_Sleep = True"
| "after_spawn M_LockMain = True"
| "after_spawn M_WaitTest = True"
| "after_spawn M_Print = True"
| "after_spawn M_DestroyMain = True"
| "after_spawn (M_Exit v) = (v = 0)"
| "after_spawn _ = False"

fun started :: "mpc \<Rightarrow> bool" where
  "started M_UnlockThread = True"
| "started p = after_spawn p"

fun main_holds :: "mpc \<Rightarrow> bool" where
  "main_holds M_WaitTest = True"
| "main_holds M_Print = True"
| "main_holds M_DestroyMain = True"
| "main_holds (M_Exit v) = (v = 0)"
| "main_holds _ = False"

fun finished :: "mpc \<Rightarrow> bool" where
  "finished M_Print = True"
| "finished M_DestroyMain = True"
| "finished (M_Exit v) = (v = 0)"
| "finished _ = False"

fun reported :: "mpc \<Rightarrow> bool" where
  "reported M_DestroyMain = True"
| "reported (M_Exit v) = (v = 0)"
| "reported _ = False"

fun in_test :: "mpc \<Rightarrow> bool" where
  "in_test M_Create = True"
| "in_test M_IncRead = True"
| "in_test M_IncWrite = True"
| "in_test _ = False"

fun pending :: "mpc \<Rightarrow> int" where
  "pending M_IncRead = 1"
| "pending M_IncWrite = 1"
| "pending _ = 0"

subsection \<open>The invariant\<close>

text \<open>Before the spawn loop nothing has happened.\<close>

definition fresh :: "state \<Rightarrow> bool" where
  "fresh s = (workers s = [] \<and> start s = 0 \<and> threads s = 0 \<and> counter s = 0
     \<and> firstRun s = 1 \<and> mainLock s = Free \<and> threadLock s = Free \<and> countLock s = Free
     \<and> decreLock s = Free \<and> printed s = None)"

text \<open>For each worker: it holds the mutexes of its program point; it is past its early
  points only after the spawn loop; its loop variable is within the loop bounds; and the
  value it read in \<^verbatim>\<open>counter++\<close> or \<^verbatim>\<open>threads--\<close> is still what memory holds when it
  writes.\<close>

definition lock_ok :: "(wpc \<Rightarrow> bool) \<Rightarrow> (state \<Rightarrow> mutex) \<Rightarrow> state \<Rightarrow> nat \<Rightarrow> worker \<Rightarrow> bool" where
  "lock_ok holds m s t w = (holds (wpc w) \<longrightarrow> m s = Held (Worker t))"

definition phase_ok :: "state \<Rightarrow> nat \<Rightarrow> worker \<Rightarrow> bool" where
  "phase_ok s t w = (\<not> early (wpc w) \<longrightarrow> after_spawn (mpc s))"

definition loop_ok :: "state \<Rightarrow> nat \<Rightarrow> worker \<Rightarrow> bool" where
  "loop_ok s t w =
    (0 \<le> loop_i w \<and> loop_i w \<le> max 0 (num_loops s)
   \<and> (in_body (wpc w) \<longrightarrow> loop_i w < num_loops s)
   \<and> (post_loop (wpc w) \<longrightarrow> loop_i w = max 0 (num_loops s))
   \<and> (\<not> after_wait (wpc w) \<or> wpc w = W_Reacquire \<longrightarrow> loop_i w = 0))"

definition creg_ok :: "state \<Rightarrow> nat \<Rightarrow> worker \<Rightarrow> bool" where
  "creg_ok s t w = (wpc w = W_IncWrite \<longrightarrow> reg w = counter s)"

definition treg_ok :: "state \<Rightarrow> nat \<Rightarrow> worker \<Rightarrow> bool" where
  "treg_ok s t w = (wpc w = W_DecWrite \<longrightarrow> reg w = threads s)"

definition each_worker :: "(state \<Rightarrow> nat \<Rightarrow> worker \<Rightarrow> bool) \<Rightarrow> state \<Rightarrow> bool" where
  "each_worker P s = (\<forall>t < length (workers s). P s t (workers s ! t))"

text \<open>For \<^verbatim>\<open>main\<close>: each property is tied to its program points.\<close>

definition fresh_ok :: "state \<Rightarrow> bool" where
  "fresh_ok s = (pre_spawn (mpc s) \<longrightarrow> fresh s)"

definition spawn_ok :: "state \<Rightarrow> bool" where
  "spawn_ok s =
     (spawning (mpc s) \<longrightarrow> threadLock s = Held Coordinator \<and> firstRun s = 1
         \<and> int (length (workers s)) = threads s + pending (mpc s))"

definition test_ok :: "state \<Rightarrow> bool" where
  "test_ok s =
     ((in_test (mpc s) \<longrightarrow> 0 \<le> threads s \<and> threads s < num_threads s)
    \<and> (mpc s = M_IncWrite \<longrightarrow> mreg s = threads s))"

definition hold_ok :: "state \<Rightarrow> bool" where
  "hold_ok s = (main_holds (mpc s) \<longrightarrow> mainLock s = Held Coordinator)"

definition fin_ok :: "state \<Rightarrow> bool" where
  "fin_ok s = (finished (mpc s) \<longrightarrow> threads s = 0)"

definition length_ok :: "state \<Rightarrow> bool" where
  "length_ok s =
    (int (length (workers s)) \<le> max 0 (num_threads s)
   \<and> (\<not> pre_spawn (mpc s) \<and> \<not> in_test (mpc s) \<and> mpc s \<noteq> M_SpawnTest
         \<longrightarrow> int (length (workers s)) = max 0 (num_threads s)))"

definition start_ok :: "state \<Rightarrow> bool" where
  "start_ok s = (start s = (if started (mpc s) then 1 else 0))"

definition printed_ok :: "state \<Rightarrow> bool" where
  "printed_ok s =
     (printed s = (if reported (mpc s) then Some (counter s, num_loops s * num_threads s) else None))"

text \<open>The counter is the sum of the increments made, and the live-worker count is the
  number of workers that have not written their decrement, less the one just created.\<close>

definition counter_ok :: "state \<Rightarrow> bool" where
  "counter_ok s = (counter s = sum_list (map increments (workers s)))"

definition threads_ok :: "state \<Rightarrow> bool" where
  "threads_ok s = (threads s + pending (mpc s) = sum_list (map live (workers s)))"

definition p2_inv :: "state \<Rightarrow> bool" where
  "p2_inv s = (fresh_ok s \<and> spawn_ok s \<and> test_ok s \<and> hold_ok s \<and> fin_ok s \<and> length_ok s \<and> start_ok s \<and> printed_ok s \<and> counter_ok s
     \<and> threads_ok s \<and> each_worker (lock_ok holds_main mainLock) s
     \<and> each_worker (lock_ok holds_count countLock) s
     \<and> each_worker (lock_ok holds_decre decreLock) s
     \<and> each_worker (lock_ok takes_thread threadLock) s
     \<and> each_worker phase_ok s \<and> each_worker loop_ok s \<and> each_worker creg_ok s \<and> each_worker treg_ok s)"

section \<open>Definitions for the properties\<close>

subsection \<open>Runs of one and of two workers\<close>

text \<open>The clocks of the runs below: a run started at 5.999999 s with the processor clock
  at 100, and finished at 7.000002 s with the clock at 1600100.\<close>

definition t_start :: timeval where
  "t_start = \<lparr>tv_sec = 5, tv_usec = 999999\<rparr>"

definition t_finish :: timeval where
  "t_finish = \<lparr>tv_sec = 7, tv_usec = 2\<rparr>"

text \<open>One worker and one loop, without spurious wakeups: \<^verbatim>\<open>./p2 1 1\<close>. After thirteen steps
  of \<^verbatim>\<open>main\<close> and seven of the worker, the worker waits on \<^verbatim>\<open>waitCond\<close>.\<close>

definition cfg_one :: config where
  "cfg_one = \<lparr>argv = [''p2'', ''1'', ''1''], init_fails = [], spurious = False,
     time_start = t_start, clock_start = 100, time_finish = t_finish, clock_finish = 1600100\<rparr>"

definition blocked_run :: "action list" where
  "blocked_run = replicate 13 A_Main @ replicate 7 (A_Thread 0)"

definition st_blocked :: state where
  "st_blocked =
  \<lparr>start = 1, counter = 0, threads = 1, num_loops = 1, num_threads = 1,
     firstRun = 0, countLock = Free, decreLock = Free, mainLock = Free,
     threadLock = Held (Worker 0), mpc = M_Sleep, mreg = 0,
     workers = [\<lparr>wpc = W_Waiting, loop_i = 0, reg = 0\<rparr>], printed = None, complaint = None,
     start_time = t_start, startc = 100, line = None\<rparr>"

text \<open>A worker that has not returned from \<^verbatim>\<open>pthread_cond_wait\<close>.\<close>

definition before_wake :: "state \<Rightarrow> nat \<Rightarrow> worker \<Rightarrow> bool" where
  "before_wake s t w = (\<not> after_wait (wpc w))"

text \<open>Two workers and two loops each, with a spurious wakeup of each worker, run to the
  end: \<^verbatim>\<open>./p2 2 2\<close>.\<close>

definition cfg_two :: config where
  "cfg_two = \<lparr>argv = [''p2'', ''2'', ''2''], init_fails = [], spurious = True,
     time_start = t_start, clock_start = 100, time_finish = t_finish, clock_finish = 1600100\<rparr>"

definition full_run :: "action list" where
  "full_run = replicate 18 A_Main @ replicate 7 (A_Thread 0) @ replicate 4 (A_Thread 1)
     @ [A_Spurious 0] @ replicate 18 (A_Thread 0)
     @ [A_Spurious 1] @ replicate 19 (A_Thread 1) @ replicate 4 A_Main"

definition st_done :: state where
  "st_done =
  \<lparr>start = 1, counter = 4, threads = 0, num_loops = 2, num_threads = 2,
     firstRun = 0, countLock = Free, decreLock = Free, mainLock = Held Coordinator,
     threadLock = Held (Worker 0), mpc = M_Exit 0, mreg = 1,
     workers =
       [\<lparr>wpc = W_Done, loop_i = 2, reg = 2\<rparr>,
        \<lparr>wpc = W_Done, loop_i = 2, reg = 1\<rparr>],
     printed = Some (4, 4), complaint = None,
     start_time = t_start, startc = 100,
     line = Some (''4 total count, expected 4, time 1.000003s, cpu time 1.600000s''
                    @ [CHR 0x0A])\<rparr>"

subsection \<open>Accesses of the counter\<close>

text \<open>The steps whose statement reads or writes \<^verbatim>\<open>state.counter\<close>: the initialiser and the
  result line in \<^verbatim>\<open>main\<close>, the two halves of \<^verbatim>\<open>state->counter++\<close> in a worker.\<close>

definition touches_counter :: "action \<Rightarrow> state \<Rightarrow> bool" where
  "touches_counter a s =
     (case a of
        A_Main \<Rightarrow> mpc s = M_Parse \<or> mpc s = M_Print
      | A_Thread t \<Rightarrow> wpc (workers s ! t) = W_IncRead \<or> wpc (workers s ! t) = W_IncWrite
      | A_Signal t u \<Rightarrow> False
      | A_Spurious u \<Rightarrow> False)"

text \<open>The run of \<^verbatim>\<open>./p2 2 2\<close> up to the first write of the counter by worker 0.\<close>

definition incr_run :: "action list" where
  "incr_run = replicate 18 A_Main @ replicate 7 (A_Thread 0) @ replicate 4 (A_Thread 1)
     @ [A_Spurious 0] @ replicate 4 (A_Thread 0)"

definition st_incr :: state where
  "st_incr =
  \<lparr>start = 1, counter = 0, threads = 2, num_loops = 2, num_threads = 2,
     firstRun = 0, countLock = Held (Worker 0), decreLock = Free,
     mainLock = Held (Worker 0), threadLock = Held (Worker 0), mpc = M_LockMain,
     mreg = 1,
     workers =
       [\<lparr>wpc = W_IncWrite, loop_i = 0, reg = 0\<rparr>,
        \<lparr>wpc = W_Waiting, loop_i = 0, reg = 0\<rparr>],
     printed = None, complaint = None,
     start_time = t_start, startc = 100, line = None\<rparr>"

subsection \<open>Further runs\<close>


text \<open>The run of \<^verbatim>\<open>./p2 1 1\<close> of above, one step of \<^verbatim>\<open>main\<close> later.\<close>

definition st_stuck :: state where
  "st_stuck = st_blocked\<lparr>mpc := M_LockMain\<rparr>"

text \<open>No worker: \<^verbatim>\<open>./p2 0\<close>. The state in which \<^verbatim>\<open>main\<close> returns, for \<open>l\<close> loops and
  the clocks of the configuration.\<close>

definition cfg_zero :: config where
  "cfg_zero = \<lparr>argv = [''p2'', ''0''], init_fails = [], spurious = False,
     time_start = t_start, clock_start = 100, time_finish = t_finish, clock_finish = 1600100\<rparr>"

definition zero_final :: "config \<Rightarrow> int \<Rightarrow> state" where
  "zero_final cfg l =
  \<lparr>start = 1, counter = 0, threads = 0, num_loops = l, num_threads = 0,
     firstRun = 1, countLock = Free, decreLock = Free, mainLock = Held Coordinator,
     threadLock = Free, mpc = M_Exit 0, mreg = 0, workers = [],
     printed = Some (0, 0), complaint = None,
     start_time = time_start cfg, startc = clock_start cfg,
     line = Some (result_line 0 0
              (all_times (time_start cfg) (clock_start cfg)
                 (time_finish cfg) (clock_finish cfg)))\<rparr>"

subsection \<open>Initialisation\<close>

text \<open>The mutexes that \<^verbatim>\<open>main\<close> has initialised with success when it is at a program
  point (after a failure it has returned - 1, and nothing is known).\<close>

fun inits_done :: "mpc \<Rightarrow> lock_id list" where
  "inits_done M_InitCount = []"
| "inits_done M_InitDecre = [CountLock]"
| "inits_done M_InitMain = [CountLock, DecreLock]"
| "inits_done M_InitThread = [CountLock, DecreLock, MainLock]"
| "inits_done (M_Exit v) = (if v = 0 then [CountLock, DecreLock, MainLock, ThreadLock] else [])"
| "inits_done _ = [CountLock, DecreLock, MainLock, ThreadLock]"

text \<open>The first mutex, in the order of \<^verbatim>\<open>main\<close>, whose initialisation fails.\<close>

definition first_failure :: "config \<Rightarrow> lock_id option" where
  "first_failure cfg =
     find (\<lambda>l. l \<in> set (init_fails cfg)) [CountLock, DecreLock, MainLock, ThreadLock]"

definition init_ok :: "config \<Rightarrow> state \<Rightarrow> bool" where
  "init_ok cfg s =
     ((\<forall>l \<in> set (inits_done (mpc s)). l \<notin> set (init_fails cfg))
    \<and> (\<forall>v. mpc s = M_Exit v \<and> v \<noteq> 0 \<longrightarrow>
          v = - 1 \<and> init_fails cfg \<noteq> [] \<and> first_failure cfg \<noteq> None
        \<and> complaint s = map_option init_message (first_failure cfg))
    \<and> ((\<forall>v. mpc s = M_Exit v \<longrightarrow> v = 0) \<longrightarrow> complaint s = None))"

text \<open>A failed initialisation: \<^verbatim>\<open>./p2\<close> when \<^verbatim>\<open>pthread_mutex_init(&mainLock, NULL)\<close> fails.\<close>

definition cfg_fail :: config where
  "cfg_fail = \<lparr>argv = [''p2''], init_fails = [MainLock], spurious = False,
     time_start = t_start, clock_start = 100, time_finish = t_finish, clock_finish = 1600100\<rparr>"

definition st_fail :: state where
  "st_fail = init_state\<lparr>mpc := M_Exit (- 1),
     complaint := Some (''mainLock mutex initialization failed'' @ [CHR 0x0A])\<rparr>"

subsection \<open>Arguments\<close>

text \<open>Arguments that are not numbers: \<^verbatim>\<open>./p2 abc xyz\<close>.\<close>

definition cfg_words :: config where
  "cfg_words = \<lparr>argv = [''p2'', ''abc'', ''xyz''], init_fails = [], spurious = False,
     time_start = t_start, clock_start = 100, time_finish = t_finish, clock_finish = 1600100\<rparr>"

subsection \<open>Ownership of the mutexes\<close>

text \<open>The converse of \<open>lock_ok\<close>: a worker away from the program points where it holds a
  mutex does not own it; an owner is an existing worker; and \<^verbatim>\<open>main\<close> owns \<^verbatim>\<open>threadLock\<close>
  during the spawn loop, \<^verbatim>\<open>mainLock\<close> from line 172 on, and nothing else. A worker that
  has not locked \<^verbatim>\<open>threadLock\<close> yet does not own it, and no mutex is ever destroyed: the
  two calls of \<^verbatim>\<open>pthread_mutex_destroy\<close> find their mutex locked.\<close>

definition free_ok :: "(wpc \<Rightarrow> bool) \<Rightarrow> (state \<Rightarrow> mutex) \<Rightarrow> state \<Rightarrow> nat \<Rightarrow> worker \<Rightarrow> bool" where
  "free_ok holds m s t w = (\<not> holds (wpc w) \<longrightarrow> m s \<noteq> Held (Worker t))"

definition bound_ok :: "(state \<Rightarrow> mutex) \<Rightarrow> state \<Rightarrow> bool" where
  "bound_ok m s = (\<forall>t. m s = Held (Worker t) \<longrightarrow> t < length (workers s))"

definition coord_ok :: "state \<Rightarrow> bool" where
  "coord_ok s =
     ((mainLock s = Held Coordinator \<longrightarrow> main_holds (mpc s))
    \<and> (threadLock s = Held Coordinator \<longrightarrow> spawning (mpc s))
    \<and> countLock s \<noteq> Held Coordinator \<and> decreLock s \<noteq> Held Coordinator)"

definition undestroyed :: "state \<Rightarrow> bool" where
  "undestroyed s =
     (countLock s \<noteq> Destroyed \<and> decreLock s \<noteq> Destroyed \<and> mainLock s \<noteq> Destroyed
    \<and> threadLock s \<noteq> Destroyed)"

definition owner_inv :: "state \<Rightarrow> bool" where
  "owner_inv s =
     (coord_ok s
    \<and> bound_ok mainLock s \<and> bound_ok countLock s \<and> bound_ok decreLock s \<and> bound_ok threadLock s
    \<and> each_worker (free_ok holds_main mainLock) s
    \<and> each_worker (free_ok holds_count countLock) s
    \<and> each_worker (free_ok holds_decre decreLock) s
    \<and> each_worker (free_ok (\<lambda>p. \<not> early p) threadLock) s)"

text \<open>The mutex behind each name, and the mutexes that a task has locked in a state.\<close>

fun lock_of :: "lock_id \<Rightarrow> state \<Rightarrow> mutex" where
  "lock_of CountLock s = countLock s"
| "lock_of DecreLock s = decreLock s"
| "lock_of MainLock s = mainLock s"
| "lock_of ThreadLock s = threadLock s"

definition held_by :: "state \<Rightarrow> task \<Rightarrow> lock_id list" where
  "held_by s k = filter (\<lambda>l. lock_of l s = Held k) [CountLock, DecreLock, MainLock, ThreadLock]"

text \<open>
  A task is suspended in a state when it is in a call that does not return in that state:
  a worker in \<^verbatim>\<open>pthread_mutex_lock\<close> of a mutex that is not free, in its busy-wait while
  the start flag is 0, or waiting on the condition (and then taking \<^verbatim>\<open>mainLock\<close> again);
  \<^verbatim>\<open>main\<close> in \<^verbatim>\<open>pthread_mutex_lock\<close> likewise, in the \<^verbatim>\<open>sleep\<close> of line 171, and in
  its wait loop with the \<^verbatim>\<open>sleep\<close> of line 178 while the live-worker count is positive.
\<close>

definition suspended :: "state \<Rightarrow> task \<Rightarrow> bool" where
  "suspended s k =
     (case k of
        Coordinator \<Rightarrow>
          (case mpc s of
             M_LockThread \<Rightarrow> threadLock s \<noteq> Free
           | M_Sleep \<Rightarrow> True
           | M_LockMain \<Rightarrow> mainLock s \<noteq> Free
           | M_WaitTest \<Rightarrow> threads s > 0
           | _ \<Rightarrow> False)
      | Worker t \<Rightarrow>
          (case wpc (workers s ! t) of
             W_LockMain \<Rightarrow> mainLock s \<noteq> Free
           | W_LockThread \<Rightarrow> threadLock s \<noteq> Free
           | W_Spin \<Rightarrow> start s = 0
           | W_Waiting \<Rightarrow> True
           | W_Reacquire \<Rightarrow> mainLock s \<noteq> Free
           | W_LockCount \<Rightarrow> countLock s \<noteq> Free
           | W_LockDecre \<Rightarrow> decreLock s \<noteq> Free
           | _ \<Rightarrow> False))"

text \<open>Five states of \<^verbatim>\<open>./p2 2 2\<close>. Before the start: worker 0 has \<^verbatim>\<open>mainLock\<close> and is blocked
  on \<^verbatim>\<open>threadLock\<close>, which \<^verbatim>\<open>main\<close> holds, and worker 1 is blocked on \<^verbatim>\<open>mainLock\<close>. After
  the start: worker 0 is at the test of its busy-wait, with both mutexes locked. Then worker 0 waits on the condition with \<^verbatim>\<open>threadLock\<close> still locked, \<^verbatim>\<open>main\<close> has
  taken \<^verbatim>\<open>mainLock\<close> and sleeps in its wait loop, and worker 1 is blocked on \<^verbatim>\<open>mainLock\<close>.
  Then worker 0 is woken with no signal and is blocked on \<^verbatim>\<open>mainLock\<close> too. In another
  run worker 1 is woken first, does its loop and is about to decrement under \<^verbatim>\<open>decreLock\<close>,
  and worker 0, woken after it, has done its loop and is blocked on \<^verbatim>\<open>decreLock\<close>.\<close>

definition st_early :: state where
  "st_early =
  \<lparr>start = 0, counter = 0, threads = 2, num_loops = 2, num_threads = 2,
     firstRun = 1, countLock = Free, decreLock = Free,
     mainLock = Held (Worker 0), threadLock = Held Coordinator,
     mpc = M_SetStart, mreg = 1,
     workers =
       [\<lparr>wpc = W_LockThread, loop_i = 0, reg = 0\<rparr>,
        \<lparr>wpc = W_LockMain, loop_i = 0, reg = 0\<rparr>],
     printed = None, complaint = None,
     start_time = t_start, startc = 100, line = None\<rparr>"

definition spin_run :: "action list" where
  "spin_run = replicate 18 A_Main @ replicate 5 (A_Thread 0)"

definition st_spin :: state where
  "st_spin =
  \<lparr>start = 1, counter = 0, threads = 2, num_loops = 2, num_threads = 2,
     firstRun = 0, countLock = Free, decreLock = Free,
     mainLock = Held (Worker 0), threadLock = Held (Worker 0), mpc = M_LockMain,
     mreg = 1,
     workers =
       [\<lparr>wpc = W_Spin, loop_i = 0, reg = 0\<rparr>,
        \<lparr>wpc = W_LockMain, loop_i = 0, reg = 0\<rparr>],
     printed = None, complaint = None,
     start_time = t_start, startc = 100, line = None\<rparr>"

definition sleep_run :: "action list" where
  "sleep_run = replicate 18 A_Main @ replicate 7 (A_Thread 0) @ [A_Main]"

definition st_sleep :: state where
  "st_sleep =
  \<lparr>start = 1, counter = 0, threads = 2, num_loops = 2, num_threads = 2,
     firstRun = 0, countLock = Free, decreLock = Free,
     mainLock = Held Coordinator, threadLock = Held (Worker 0), mpc = M_WaitTest,
     mreg = 1,
     workers =
       [\<lparr>wpc = W_Waiting, loop_i = 0, reg = 0\<rparr>,
        \<lparr>wpc = W_LockMain, loop_i = 0, reg = 0\<rparr>],
     printed = None, complaint = None,
     start_time = t_start, startc = 100, line = None\<rparr>"

definition woken_run :: "action list" where
  "woken_run = sleep_run @ [A_Spurious 0]"

definition st_woken :: state where
  "st_woken =
  \<lparr>start = 1, counter = 0, threads = 2, num_loops = 2, num_threads = 2,
     firstRun = 0, countLock = Free, decreLock = Free,
     mainLock = Held Coordinator, threadLock = Held (Worker 0), mpc = M_WaitTest,
     mreg = 1,
     workers =
       [\<lparr>wpc = W_Reacquire, loop_i = 0, reg = 0\<rparr>,
        \<lparr>wpc = W_LockMain, loop_i = 0, reg = 0\<rparr>],
     printed = None, complaint = None,
     start_time = t_start, startc = 100, line = None\<rparr>"

definition decre_run :: "action list" where
  "decre_run = replicate 18 A_Main @ replicate 7 (A_Thread 0) @ replicate 4 (A_Thread 1)
     @ [A_Spurious 1] @ replicate 14 (A_Thread 1)
     @ [A_Spurious 0] @ replicate 13 (A_Thread 0)"

definition st_decre :: state where
  "st_decre =
  \<lparr>start = 1, counter = 4, threads = 2, num_loops = 2, num_threads = 2,
     firstRun = 0, countLock = Free, decreLock = Held (Worker 1),
     mainLock = Free, threadLock = Held (Worker 0), mpc = M_LockMain,
     mreg = 1,
     workers =
       [\<lparr>wpc = W_LockDecre, loop_i = 2, reg = 3\<rparr>,
        \<lparr>wpc = W_DecRead, loop_i = 2, reg = 1\<rparr>],
     printed = None, complaint = None,
     start_time = t_start, startc = 100, line = None\<rparr>"

subsection \<open>Ranges\<close>

text \<open>The ranges of \<^verbatim>\<open>int\<close> and \<^verbatim>\<open>long\<close> where \<^verbatim>\<open>long\<close> has 64 bits.\<close>

definition LONG_MAX :: int where
  "LONG_MAX = 9223372036854775807"

definition int_range :: "int \<Rightarrow> bool" where
  "int_range v = (INT_MIN \<le> v \<and> v \<le> INT_MAX)"

definition LONG_MIN :: int where
  "LONG_MIN = - 9223372036854775808"

definition long_range :: "int \<Rightarrow> bool" where
  "long_range v = (LONG_MIN \<le> v \<and> v \<le> LONG_MAX)"

subsection \<open>The result line\<close>

text \<open>
  The text that \<^verbatim>\<open>all_times\<close> returns in a run, and the values of its variables \<^verbatim>\<open>delta\<close>
  and \<^verbatim>\<open>delta_cpu\<close>: the arguments of the call in line 183 are the readings of lines 160
  and 161. Then a time of day in microseconds, and the number that a text printed with
  \<^verbatim>\<open>%ld\<close> or \<^verbatim>\<open>%06ld\<close> stands for.
\<close>

definition run_times :: "config \<Rightarrow> string" where
  "run_times cfg =
     all_times (time_start cfg) (clock_start cfg) (time_finish cfg) (clock_finish cfg)"

definition wall_us :: "config \<Rightarrow> int" where
  "wall_us cfg = sint (elapsed (time_start cfg) (time_finish cfg))"

definition cpu_us :: "config \<Rightarrow> int" where
  "cpu_us cfg = sint (elapsed_cpu (clock_start cfg) (clock_finish cfg))"

definition micros :: "timeval \<Rightarrow> int" where
  "micros tv = sint (tv_sec tv) * 1000000 + sint (tv_usec tv)"

definition read_ld :: "string \<Rightarrow> int" where
  "read_ld str =
     (case str of
        [] \<Rightarrow> 0
      | c # cs \<Rightarrow> if c = CHR ''-'' then - digits_acc 0 cs else digits_acc 0 str)"

text \<open>From the end of the spawn loop on, the locals \<^verbatim>\<open>start\<close> and \<^verbatim>\<open>startc\<close> of \<^verbatim>\<open>main\<close>
  hold the readings of lines 160 and 161; and the line is the text of what is printed.\<close>

fun clocks_read :: "mpc \<Rightarrow> bool" where
  "clocks_read M_SetStart = True"
| "clocks_read p = started p"

definition out_ok :: "config \<Rightarrow> state \<Rightarrow> bool" where
  "out_ok cfg s =
     ((clocks_read (mpc s) \<longrightarrow> start_time s = time_start cfg \<and> startc s = clock_start cfg)
    \<and> line s = map_option (\<lambda>p. result_line (fst p) (snd p) (run_times cfg)) (printed s))"

subsection \<open>The first revision\<close>

text \<open>
  The first revision of the program (the first file of \<^verbatim>\<open>src/unnamed/part_000\<close>) has one
  mutex, \<^verbatim>\<open>countLock\<close>, and no condition: a worker busy-waits for the start flag (line 51),
  runs the same loop (lines 53 to 57) and then decrements \<^verbatim>\<open>state->threads\<close> with no guard
  (line 59, under the comment \<^verbatim>\<open>@TODO: ensure #of threads is always correct\<close>);
  \<^verbatim>\<open>main\<close> spins until the count is 0 (line 110). It is modelled on the same state, with
  the program points it has.
\<close>

definition new_worker_v1 :: worker where
  "new_worker_v1 = \<lparr>wpc = W_Spin, loop_i = 0, reg = 0\<rparr>"

definition thread_step_v1 :: "nat \<Rightarrow> state \<Rightarrow> state option" where
  "thread_step_v1 t s =
     (let w = workers s ! t in
      case wpc w of
        W_Spin \<Rightarrow> Some (jump t (if start s = 0 then W_Spin else W_LoopTest) s)
      | W_LoopTest \<Rightarrow>
          Some (jump t (if loop_i w < num_loops s then W_LockCount else W_DecRead) s)
      | W_LockCount \<Rightarrow>
          (if countLock s = Free
           then Some (jump t W_IncRead (s\<lparr>countLock := Held (Worker t)\<rparr>)) else None)
      | W_IncRead \<Rightarrow> Some (put_worker t (w\<lparr>wpc := W_IncWrite, reg := counter s\<rparr>) s)
      | W_IncWrite \<Rightarrow> Some (jump t W_UnlockCount (s\<lparr>counter := reg w + 1\<rparr>))
      | W_UnlockCount \<Rightarrow>
          (if countLock s = Held (Worker t)
           then Some (put_worker t (w\<lparr>wpc := W_LoopTest, loop_i := loop_i w + 1\<rparr>)
                        (s\<lparr>countLock := Free\<rparr>))
           else None)
      | W_DecRead \<Rightarrow> Some (put_worker t (w\<lparr>wpc := W_DecWrite, reg := threads s\<rparr>) s)
      | W_DecWrite \<Rightarrow> Some (jump t W_Done (s\<lparr>threads := reg w - 1\<rparr>))
      | _ \<Rightarrow> None)"

definition main_step_v1 :: "config \<Rightarrow> state \<Rightarrow> state option" where
  "main_step_v1 cfg s =
     (case mpc s of
        M_InitCount \<Rightarrow>
          Some (if CountLock \<in> set (init_fails cfg)
                then s\<lparr>complaint := Some (''mutex initialization failed'' @ [CHR 0x0A]),
                       mpc := M_Exit (- 1)\<rparr>
                else s\<lparr>countLock := Free, mpc := M_Parse\<rparr>)
      | M_Parse \<Rightarrow>
          (case (parse_threads cfg, parse_loops cfg) of
             (Some n, Some l) \<Rightarrow>
               Some (s\<lparr>num_threads := n, start := 0, counter := 0, threads := 0,
                       num_loops := l, mpc := M_SpawnTest\<rparr>)
           | _ \<Rightarrow> Some (goto M_Undefined s))
      | M_SpawnTest \<Rightarrow>
          (if threads s < num_threads s then Some (goto M_Create s)
           else Some (s\<lparr>start_time := time_start cfg, startc := clock_start cfg,
                         mpc := M_SetStart\<rparr>))
      | M_Create \<Rightarrow> Some (s\<lparr>workers := workers s @ [new_worker_v1], mpc := M_IncRead\<rparr>)
      | M_IncRead \<Rightarrow> Some (s\<lparr>mreg := threads s, mpc := M_IncWrite\<rparr>)
      | M_IncWrite \<Rightarrow> Some (s\<lparr>threads := mreg s + 1, mpc := M_SpawnTest\<rparr>)
      | M_SetStart \<Rightarrow> Some (s\<lparr>start := 1, mpc := M_WaitTest\<rparr>)
      | M_WaitTest \<Rightarrow> Some (goto (if threads s > 0 then M_WaitTest else M_Print) s)
      | M_Print \<Rightarrow>
          Some (s\<lparr>printed := Some (counter s, num_loops s * num_threads s),
                  line := Some (result_line (counter s) (num_loops s * num_threads s)
                            (all_times (start_time s) (startc s)
                               (time_finish cfg) (clock_finish cfg))),
                  mpc := M_Exit 0\<rparr>)
      | _ \<Rightarrow> None)"

definition exec_v1 :: "config \<Rightarrow> action \<Rightarrow> state \<Rightarrow> state option" where
  "exec_v1 cfg a s =
     (case a of
        A_Main \<Rightarrow> main_step_v1 cfg s
      | A_Thread t \<Rightarrow>
          (if t < length (workers s) \<and> alive s then thread_step_v1 t s else None)
      | _ \<Rightarrow> None)"

fun run_v1 :: "config \<Rightarrow> action list \<Rightarrow> state \<Rightarrow> state option" where
  "run_v1 cfg [] s = Some s"
| "run_v1 cfg (a # as) s =
     (case exec_v1 cfg a s of None \<Rightarrow> None | Some s' \<Rightarrow> run_v1 cfg as s')"

text \<open>\<^verbatim>\<open>./p2 2 0\<close> in the first revision: both workers read the count 2, then both write 1.\<close>

definition cfg_lost :: config where
  "cfg_lost = \<lparr>argv = [''p2'', ''2'', ''0''], init_fails = [], spurious = False,
     time_start = t_start, clock_start = 100, time_finish = t_finish, clock_finish = 1600100\<rparr>"

definition lost_run :: "action list" where
  "lost_run = replicate 12 A_Main @ replicate 2 (A_Thread 0) @ replicate 2 (A_Thread 1)
     @ [A_Thread 0, A_Thread 1, A_Thread 0, A_Thread 1]"

definition st_lost :: state where
  "st_lost =
  \<lparr>start = 1, counter = 0, threads = 1, num_loops = 0, num_threads = 2,
     firstRun = 1, countLock = Free, decreLock = Free, mainLock = Free,
     threadLock = Free, mpc = M_WaitTest, mreg = 1,
     workers =
       [\<lparr>wpc = W_Done, loop_i = 0, reg = 2\<rparr>,
        \<lparr>wpc = W_Done, loop_i = 0, reg = 2\<rparr>],
     printed = None, complaint = None,
     start_time = t_start, startc = 100, line = None\<rparr>"

section \<open>The invariant holds in every reachable state\<close>

lemma destroy_held [simp]: "destroy (Held k) = Held k"
  by (simp add: destroy_def)

lemma run_reachable:
  "reachable cfg s \<Longrightarrow> run cfg as s = Some s' \<Longrightarrow> reachable cfg s'"
  by (induction as arbitrary: s) (auto split: option.splits intro: reach_step)

lemma run_append:
  "run cfg (xs @ ys) s = (case run cfg xs s of None \<Rightarrow> None | Some s' \<Rightarrow> run cfg ys s')"
  by (induction xs arbitrary: s) (auto split: option.splits)

subsection \<open>A property of each worker, across a step\<close>

text \<open>When one worker moves, the property is shown for the mover at its new program point,
  and for every other worker from what held before.\<close>

lemma each_worker_step:
  assumes "each_worker P s" "each_worker Q s" "length (workers s') = length (workers s)"
    "\<And>u. u \<noteq> t \<Longrightarrow> workers s' ! u = workers s ! u"
    "t < length (workers s) \<Longrightarrow> P s' t (workers s' ! t)"
    "\<And>u x. u \<noteq> t \<Longrightarrow> P s u x \<Longrightarrow> Q s u x \<Longrightarrow> P s' u x"
  shows "each_worker P s'"
  unfolding each_worker_def
proof (intro allI impI)
  fix u assume u: "u < length (workers s')"
  show "P s' u (workers s' ! u)"
  proof (cases "u = t")
    case True
    with u assms(3) assms(5) show ?thesis by simp
  next
    case False
    with u assms(3) have "workers s' ! u = workers s ! u" by (simp add: assms(4))
    moreover from assms(1) u assms(3) have "P s u (workers s ! u)" by (simp add: each_worker_def)
    moreover from assms(2) u assms(3) have "Q s u (workers s ! u)" by (simp add: each_worker_def)
    ultimately show ?thesis using assms(6)[OF False] by simp
  qed
qed

lemma each_workerD: "each_worker P s \<Longrightarrow> t < length (workers s) \<Longrightarrow> P s t (workers s ! t)"
  by (simp add: each_worker_def)

subsection \<open>Steps of a worker\<close>

lemma not_pre_spawn: "fresh_ok s \<Longrightarrow> t < length (workers s) \<Longrightarrow> \<not> pre_spawn (mpc s)"
  by (auto simp: fresh_ok_def fresh_def)

lemma phases: "pre_spawn p \<or> spawning p \<or> after_spawn p"
  by (cases p) auto

lemma after_spawn_not_spawning: "after_spawn p \<Longrightarrow> \<not> spawning p"
  by (cases p) auto

lemma thread_step_length:
  "thread_step t s = Some s' \<Longrightarrow> length (workers s') = length (workers s)"
  by (cases "wpc (workers s ! t)")
     (auto simp: thread_step_def jump_def put_worker_def Let_def split: if_splits)

lemma thread_step_others:
  "thread_step t s = Some s' \<Longrightarrow> u \<noteq> t \<Longrightarrow> workers s' ! u = workers s ! u"
  by (cases "wpc (workers s ! t)")
     (auto simp: thread_step_def jump_def put_worker_def Let_def split: if_splits)

lemma thread_step_frame:
  "thread_step t s = Some s' \<Longrightarrow>
     mpc s' = mpc s \<and> start s' = start s \<and> num_loops s' = num_loops s
   \<and> num_threads s' = num_threads s \<and> mreg s' = mreg s \<and> printed s' = printed s
   \<and> complaint s' = complaint s"
  by (cases "wpc (workers s ! t)")
     (auto simp: thread_step_def jump_def put_worker_def Let_def split: if_splits)

lemma main_lock_thread:
  assumes "p2_inv s" "t < length (workers s)" "thread_step t s = Some s'"
  shows "each_worker (lock_ok holds_main mainLock) s'"
proof -
  from assms(1) have e: "each_worker (lock_ok holds_main mainLock) s" by (simp add: p2_inv_def)
  from e assms(2) have lt: "lock_ok holds_main mainLock s t (workers s ! t)" by (rule each_workerD)
  show ?thesis
  proof (rule each_worker_step[OF e e thread_step_length[OF assms(3)] thread_step_others[OF assms(3)]])
    show "lock_ok holds_main mainLock s' t (workers s' ! t)"
      using assms(3) assms(2) lt
      by (cases "wpc (workers s ! t)")
         (auto simp: thread_step_def jump_def put_worker_def Let_def lock_ok_def split: if_splits)
  next
    fix u x assume "u \<noteq> t" "lock_ok holds_main mainLock s u x"
    then show "lock_ok holds_main mainLock s' u x"
      using assms(3) assms(2) lt
      by (cases "wpc (workers s ! t)")
         (auto simp: thread_step_def jump_def put_worker_def Let_def lock_ok_def split: if_splits)
  qed
qed

lemma count_lock_thread:
  assumes "p2_inv s" "t < length (workers s)" "thread_step t s = Some s'"
  shows "each_worker (lock_ok holds_count countLock) s'"
proof -
  from assms(1) have e: "each_worker (lock_ok holds_count countLock) s" by (simp add: p2_inv_def)
  from e assms(2) have lt: "lock_ok holds_count countLock s t (workers s ! t)" by (rule each_workerD)
  show ?thesis
  proof (rule each_worker_step[OF e e thread_step_length[OF assms(3)] thread_step_others[OF assms(3)]])
    show "lock_ok holds_count countLock s' t (workers s' ! t)"
      using assms(3) assms(2) lt
      by (cases "wpc (workers s ! t)")
         (auto simp: thread_step_def jump_def put_worker_def Let_def lock_ok_def split: if_splits)
  next
    fix u x assume "u \<noteq> t" "lock_ok holds_count countLock s u x"
    then show "lock_ok holds_count countLock s' u x"
      using assms(3) assms(2) lt
      by (cases "wpc (workers s ! t)")
         (auto simp: thread_step_def jump_def put_worker_def Let_def lock_ok_def split: if_splits)
  qed
qed

lemma decre_lock_thread:
  assumes "p2_inv s" "t < length (workers s)" "thread_step t s = Some s'"
  shows "each_worker (lock_ok holds_decre decreLock) s'"
proof -
  from assms(1) have e: "each_worker (lock_ok holds_decre decreLock) s" by (simp add: p2_inv_def)
  from e assms(2) have lt: "lock_ok holds_decre decreLock s t (workers s ! t)" by (rule each_workerD)
  show ?thesis
  proof (rule each_worker_step[OF e e thread_step_length[OF assms(3)] thread_step_others[OF assms(3)]])
    show "lock_ok holds_decre decreLock s' t (workers s' ! t)"
      using assms(3) assms(2) lt
      by (cases "wpc (workers s ! t)")
         (auto simp: thread_step_def jump_def put_worker_def Let_def lock_ok_def split: if_splits)
  next
    fix u x assume "u \<noteq> t" "lock_ok holds_decre decreLock s u x"
    then show "lock_ok holds_decre decreLock s' u x"
      using assms(3) assms(2) lt
      by (cases "wpc (workers s ! t)")
         (auto simp: thread_step_def jump_def put_worker_def Let_def lock_ok_def split: if_splits)
  qed
qed

lemma thread_lock_thread:
  assumes "p2_inv s" "t < length (workers s)" "thread_step t s = Some s'"
  shows "each_worker (lock_ok takes_thread threadLock) s'"
proof -
  from assms(1) have e: "each_worker (lock_ok takes_thread threadLock) s" by (simp add: p2_inv_def)
  from e assms(2) have lt: "lock_ok takes_thread threadLock s t (workers s ! t)" by (rule each_workerD)
  show ?thesis
  proof (rule each_worker_step[OF e e thread_step_length[OF assms(3)] thread_step_others[OF assms(3)]])
    show "lock_ok takes_thread threadLock s' t (workers s' ! t)"
      using assms(3) assms(2) lt
      by (cases "wpc (workers s ! t)")
         (auto simp: thread_step_def jump_def put_worker_def Let_def lock_ok_def split: if_splits)
  next
    fix u x assume "u \<noteq> t" "lock_ok takes_thread threadLock s u x"
    then show "lock_ok takes_thread threadLock s' u x"
      using assms(3) assms(2) lt
      by (cases "wpc (workers s ! t)")
         (auto simp: thread_step_def jump_def put_worker_def Let_def lock_ok_def split: if_splits)
  qed
qed

lemma phase_thread:
  assumes "p2_inv s" "t < length (workers s)" "thread_step t s = Some s'"
  shows "each_worker phase_ok s'"
proof -
  from assms(1) have e: "each_worker phase_ok s" and f: "fresh_ok s" and sp: "spawn_ok s"
    by (simp_all add: p2_inv_def)
  from f assms(2) have ns: "\<not> pre_spawn (mpc s)" by (rule not_pre_spawn)
  have fr: "mpc s' = mpc s" using thread_step_frame[OF assms(3)] by simp
  show ?thesis
  proof (cases "after_spawn (mpc s)")
    case True
    then show ?thesis using fr thread_step_length[OF assms(3)]
      by (simp add: each_worker_def phase_ok_def)
  next
    case False
    with ns phases have spw: "spawning (mpc s)" by blast
    with sp have th: "threadLock s = Held Coordinator" "firstRun s = 1"
      by (simp_all add: spawn_ok_def)
    from e assms(2) False have ea: "early (wpc (workers s ! t))"
      by (auto simp: each_worker_def phase_ok_def)
    show ?thesis
    proof (rule each_worker_step[OF e e thread_step_length[OF assms(3)] thread_step_others[OF assms(3)]])
      show "phase_ok s' t (workers s' ! t)"
        using assms(3) assms(2) ea th
        by (cases "wpc (workers s ! t)")
           (auto simp: thread_step_def jump_def put_worker_def Let_def phase_ok_def split: if_splits)
    next
      fix u x assume "u \<noteq> t" "phase_ok s u x"
      then show "phase_ok s' u x" using fr by (simp add: phase_ok_def)
    qed
  qed
qed

lemma loop_thread:
  assumes "p2_inv s" "t < length (workers s)" "thread_step t s = Some s'"
  shows "each_worker loop_ok s'"
proof -
  from assms(1) have e: "each_worker loop_ok s" by (simp add: p2_inv_def)
  from e assms(2) have lt: "loop_ok s t (workers s ! t)" by (rule each_workerD)
  have fr: "num_loops s' = num_loops s" using thread_step_frame[OF assms(3)] by simp
  show ?thesis
  proof (rule each_worker_step[OF e e thread_step_length[OF assms(3)] thread_step_others[OF assms(3)]])
    show "loop_ok s' t (workers s' ! t)"
      using assms(3) assms(2) lt
      by (cases "wpc (workers s ! t)")
         (auto simp: thread_step_def jump_def put_worker_def Let_def loop_ok_def split: if_splits)
  next
    fix u x assume "u \<noteq> t" "loop_ok s u x"
    then show "loop_ok s' u x" using fr by (simp add: loop_ok_def)
  qed
qed

lemma creg_thread:
  assumes "p2_inv s" "t < length (workers s)" "thread_step t s = Some s'"
  shows "each_worker creg_ok s'"
proof -
  from assms(1) have e: "each_worker creg_ok s" and q: "each_worker (lock_ok holds_count countLock) s"
    by (simp_all add: p2_inv_def)
  from e assms(2) have lt: "creg_ok s t (workers s ! t)" by (rule each_workerD)
  from q assms(2) have qt: "lock_ok holds_count countLock s t (workers s ! t)" by (rule each_workerD)
  show ?thesis
  proof (rule each_worker_step[OF e q thread_step_length[OF assms(3)] thread_step_others[OF assms(3)]])
    show "creg_ok s' t (workers s' ! t)"
      using assms(3) assms(2) lt
      by (cases "wpc (workers s ! t)")
         (auto simp: thread_step_def jump_def put_worker_def Let_def creg_ok_def split: if_splits)
  next
    fix u x assume "u \<noteq> t" "creg_ok s u x" "lock_ok holds_count countLock s u x"
    then show "creg_ok s' u x"
      using assms(3) assms(2) qt
      by (cases "wpc (workers s ! t)")
         (auto simp: thread_step_def jump_def put_worker_def Let_def creg_ok_def lock_ok_def split: if_splits)
  qed
qed

lemma treg_thread:
  assumes "p2_inv s" "t < length (workers s)" "thread_step t s = Some s'"
  shows "each_worker treg_ok s'"
proof -
  from assms(1) have e: "each_worker treg_ok s" and q: "each_worker (lock_ok holds_decre decreLock) s"
    by (simp_all add: p2_inv_def)
  from e assms(2) have lt: "treg_ok s t (workers s ! t)" by (rule each_workerD)
  from q assms(2) have qt: "lock_ok holds_decre decreLock s t (workers s ! t)" by (rule each_workerD)
  show ?thesis
  proof (rule each_worker_step[OF e q thread_step_length[OF assms(3)] thread_step_others[OF assms(3)]])
    show "treg_ok s' t (workers s' ! t)"
      using assms(3) assms(2) lt
      by (cases "wpc (workers s ! t)")
         (auto simp: thread_step_def jump_def put_worker_def Let_def treg_ok_def split: if_splits)
  next
    fix u x assume "u \<noteq> t" "treg_ok s u x" "lock_ok holds_decre decreLock s u x"
    then show "treg_ok s' u x"
      using assms(3) assms(2) qt
      by (cases "wpc (workers s ! t)")
         (auto simp: thread_step_def jump_def put_worker_def Let_def treg_ok_def lock_ok_def split: if_splits)
  qed
qed

lemma sum_list_map_upd:
  "t < length xs \<Longrightarrow>
     sum_list (map f (xs[t := y])) = sum_list (map f xs) - f (xs ! t) + (f y :: int)"
  by (induction xs arbitrary: t) (auto split: nat.splits)

lemma sum_step:
  assumes "length ws' = length ws" "\<And>u. u \<noteq> t \<Longrightarrow> ws' ! u = ws ! u" "t < length ws"
  shows "sum_list (map f ws') = sum_list (map f ws) - f (ws ! t) + (f (ws' ! t) :: int)"
proof -
  have "ws' = ws[t := ws' ! t]"
    using assms by (intro nth_equalityI) (auto simp: nth_list_update)
  then have "sum_list (map f ws') = sum_list (map f (ws[t := ws' ! t]))" by simp
  then show ?thesis using assms(3) by (simp add: sum_list_map_upd)
qed

lemma live_le_sum: "t < length ws \<Longrightarrow> live (ws ! t) \<le> sum_list (map live ws)"
proof (induction ws arbitrary: t)
  case Nil
  then show ?case by simp
next
  case (Cons w ws)
  have nn: "0 \<le> sum_list (map live ws)" by (induction ws) (auto simp: live_def)
  show ?case
  proof (cases t)
    case 0
    then show ?thesis using nn by simp
  next
    case (Suc k)
    with Cons have "live (ws ! k) \<le> sum_list (map live ws)" by simp
    moreover have "0 \<le> live w" by (simp add: live_def)
    ultimately show ?thesis using Suc by simp
  qed
qed

lemma finished_pending: "finished p \<Longrightarrow> pending p = 0"
  by (cases p) auto

lemma reported_finished: "reported p \<Longrightarrow> finished p"
  by (cases p) auto

lemma in_test_spawning: "in_test p \<Longrightarrow> spawning p"
  by (cases p) auto

lemma departed_when_finished:
  assumes "p2_inv s" "finished (mpc s)" "t < length (workers s)"
  shows "departed (wpc (workers s ! t))"
proof -
  from assms(1) have "fin_ok s" "threads_ok s" by (simp_all add: p2_inv_def)
  with assms(2) have "sum_list (map live (workers s)) = 0"
    by (simp add: fin_ok_def threads_ok_def finished_pending)
  with live_le_sum[OF assms(3)] have "live (workers s ! t) \<le> 0" by simp
  then show ?thesis by (simp add: live_def split: if_splits)
qed

lemma early_when_spawning:
  assumes "p2_inv s" "spawning (mpc s)" "t < length (workers s)"
  shows "early (wpc (workers s ! t))"
proof -
  from assms(1) have "each_worker phase_ok s" by (simp add: p2_inv_def)
  from this assms(3) have "phase_ok s t (workers s ! t)" by (rule each_workerD)
  with assms(2) after_spawn_not_spawning show ?thesis by (auto simp: phase_ok_def)
qed

lemma fresh_thread:
  assumes "p2_inv s" "t < length (workers s)" "thread_step t s = Some s'"
  shows "fresh_ok s'"
proof -
  from assms(1) have "fresh_ok s" by (simp add: p2_inv_def)
  then have "\<not> pre_spawn (mpc s)" using assms(2) by (rule not_pre_spawn)
  then show ?thesis using thread_step_frame[OF assms(3)] by (simp add: fresh_ok_def)
qed

lemma spawn_thread:
  assumes "p2_inv s" "t < length (workers s)" "thread_step t s = Some s'"
  shows "spawn_ok s'"
proof (cases "spawning (mpc s)")
  case False
  then show ?thesis using thread_step_frame[OF assms(3)] by (simp add: spawn_ok_def)
next
  case True
  from assms(1) have sp: "spawn_ok s" by (simp add: p2_inv_def)
  have ea: "early (wpc (workers s ! t))" using assms(1) True assms(2) by (rule early_when_spawning)
  have fr: "mpc s' = mpc s" using thread_step_frame[OF assms(3)] by simp
  have "threadLock s' = threadLock s \<and> firstRun s' = firstRun s \<and> threads s' = threads s"
    using assms(3) ea sp True
    by (cases "wpc (workers s ! t)")
       (auto simp: thread_step_def jump_def put_worker_def Let_def spawn_ok_def split: if_splits)
  then show ?thesis using sp fr thread_step_length[OF assms(3)] by (simp add: spawn_ok_def)
qed

lemma test_thread:
  assumes "p2_inv s" "t < length (workers s)" "thread_step t s = Some s'"
  shows "test_ok s'"
proof (cases "spawning (mpc s)")
  case False
  then have "\<not> in_test (mpc s)" "mpc s \<noteq> M_IncWrite" using in_test_spawning by auto
  then show ?thesis using thread_step_frame[OF assms(3)] by (simp add: test_ok_def)
next
  case True
  from assms(1) have te: "test_ok s" by (simp add: p2_inv_def)
  have ea: "early (wpc (workers s ! t))" using assms(1) True assms(2) by (rule early_when_spawning)
  have "threads s' = threads s"
    using assms(3) ea
    by (cases "wpc (workers s ! t)")
       (auto simp: thread_step_def jump_def put_worker_def Let_def split: if_splits)
  then show ?thesis using te thread_step_frame[OF assms(3)] by (simp add: test_ok_def)
qed

lemma hold_thread:
  assumes "p2_inv s" "t < length (workers s)" "thread_step t s = Some s'"
  shows "hold_ok s'"
proof (cases "main_holds (mpc s)")
  case False
  then show ?thesis using thread_step_frame[OF assms(3)] by (simp add: hold_ok_def)
next
  case True
  from assms(1) have ho: "hold_ok s" and e: "each_worker (lock_ok holds_main mainLock) s"
    by (simp_all add: p2_inv_def)
  from e assms(2) have lt: "lock_ok holds_main mainLock s t (workers s ! t)" by (rule each_workerD)
  from ho True have co: "mainLock s = Held Coordinator" by (simp add: hold_ok_def)
  have "mainLock s' = mainLock s"
    using assms(3) lt co
    by (cases "wpc (workers s ! t)")
       (auto simp: thread_step_def jump_def put_worker_def Let_def lock_ok_def split: if_splits)
  then show ?thesis using co thread_step_frame[OF assms(3)] by (simp add: hold_ok_def)
qed

lemma fin_thread:
  assumes "p2_inv s" "t < length (workers s)" "thread_step t s = Some s'"
  shows "fin_ok s'"
proof (cases "finished (mpc s)")
  case False
  then show ?thesis using thread_step_frame[OF assms(3)] by (simp add: fin_ok_def)
next
  case True
  from assms(1) have fi: "fin_ok s" by (simp add: p2_inv_def)
  have de: "departed (wpc (workers s ! t))" using assms(1) True assms(2) by (rule departed_when_finished)
  have "threads s' = threads s"
    using assms(3) de
    by (cases "wpc (workers s ! t)")
       (auto simp: thread_step_def jump_def put_worker_def Let_def split: if_splits)
  then show ?thesis using fi thread_step_frame[OF assms(3)] by (simp add: fin_ok_def)
qed

lemma length_start_thread:
  assumes "p2_inv s" "t < length (workers s)" "thread_step t s = Some s'"
  shows "length_ok s' \<and> start_ok s'"
proof -
  from assms(1) have "length_ok s" "start_ok s" by (simp_all add: p2_inv_def)
  then show ?thesis using thread_step_frame[OF assms(3)] thread_step_length[OF assms(3)]
    by (simp add: length_ok_def start_ok_def)
qed

lemma printed_thread:
  assumes "p2_inv s" "t < length (workers s)" "thread_step t s = Some s'"
  shows "printed_ok s'"
proof (cases "reported (mpc s)")
  case False
  from assms(1) have "printed_ok s" by (simp add: p2_inv_def)
  with False show ?thesis using thread_step_frame[OF assms(3)] by (simp add: printed_ok_def)
next
  case True
  from assms(1) have pr: "printed_ok s" by (simp add: p2_inv_def)
  from True have "finished (mpc s)" by (rule reported_finished)
  with assms(1) have de: "departed (wpc (workers s ! t))" using assms(2) by (rule departed_when_finished)
  have "counter s' = counter s"
    using assms(3) de
    by (cases "wpc (workers s ! t)")
       (auto simp: thread_step_def jump_def put_worker_def Let_def split: if_splits)
  then show ?thesis using pr thread_step_frame[OF assms(3)] by (simp add: printed_ok_def)
qed

lemma counter_thread:
  assumes "p2_inv s" "t < length (workers s)" "thread_step t s = Some s'"
  shows "counter_ok s'"
proof -
  from assms(1) have c: "counter_ok s" and e: "each_worker creg_ok s"
    and l: "each_worker loop_ok s" by (simp_all add: p2_inv_def)
  from e assms(2) have lt: "creg_ok s t (workers s ! t)" by (rule each_workerD)
  from l assms(2) have ll: "loop_ok s t (workers s ! t)" by (rule each_workerD)
  have d: "counter s' + increments (workers s ! t) = counter s + increments (workers s' ! t)"
    using assms(3) assms(2) lt ll
    by (cases "wpc (workers s ! t)")
       (auto simp: thread_step_def jump_def put_worker_def Let_def creg_ok_def loop_ok_def increments_def split: if_splits)
  have "sum_list (map increments (workers s')) =
        sum_list (map increments (workers s)) - increments (workers s ! t) + increments (workers s' ! t)"
    by (rule sum_step[OF thread_step_length[OF assms(3)] thread_step_others[OF assms(3)] assms(2)])
  with c d show ?thesis by (simp add: counter_ok_def)
qed

lemma threads_thread:
  assumes "p2_inv s" "t < length (workers s)" "thread_step t s = Some s'"
  shows "threads_ok s'"
proof -
  from assms(1) have c: "threads_ok s" and e: "each_worker treg_ok s" by (simp_all add: p2_inv_def)
  from e assms(2) have lt: "treg_ok s t (workers s ! t)" by (rule each_workerD)
  have d: "threads s' + live (workers s ! t) = threads s + live (workers s' ! t)"
    using assms(3) assms(2) lt
    by (cases "wpc (workers s ! t)")
       (auto simp: thread_step_def jump_def put_worker_def Let_def treg_ok_def live_def split: if_splits)
  have "sum_list (map live (workers s')) =
        sum_list (map live (workers s)) - live (workers s ! t) + live (workers s' ! t)"
    by (rule sum_step[OF thread_step_length[OF assms(3)] thread_step_others[OF assms(3)] assms(2)])
  with c d show ?thesis using thread_step_frame[OF assms(3)] by (simp add: threads_ok_def)
qed

lemma inv_thread:
  assumes "p2_inv s" "t < length (workers s)" "thread_step t s = Some s'"
  shows "p2_inv s'"
  unfolding p2_inv_def
  using fresh_thread[OF assms] spawn_thread[OF assms] test_thread[OF assms] hold_thread[OF assms]
    fin_thread[OF assms] length_start_thread[OF assms] printed_thread[OF assms]
    counter_thread[OF assms] threads_thread[OF assms] main_lock_thread[OF assms]
    count_lock_thread[OF assms] decre_lock_thread[OF assms] thread_lock_thread[OF assms]
    phase_thread[OF assms] loop_thread[OF assms] creg_thread[OF assms] treg_thread[OF assms]
  by simp


subsection \<open>Steps of the coordinator\<close>

lemma sum_live_nonneg: "0 \<le> sum_list (map live ws)"
  by (induction ws) (auto simp: live_def)

lemma pre_spawn_main:
  "main_step cfg s = Some s' \<Longrightarrow> pre_spawn (mpc s) \<Longrightarrow> workers s' = workers s"
  by (cases "mpc s") (auto simp: main_step_def goto_def init_step_def split: if_splits option.splits)

lemma main_step_workers:
  "main_step cfg s = Some s' \<Longrightarrow>
     workers s' = (if mpc s = M_Create then workers s @ [new_worker] else workers s)"
  by (cases "mpc s") (auto simp: main_step_def goto_def init_step_def split: if_splits option.splits)

lemma main_step_num_loops:
  "main_step cfg s = Some s' \<Longrightarrow> \<not> pre_spawn (mpc s) \<Longrightarrow> num_loops s' = num_loops s"
  by (cases "mpc s") (auto simp: main_step_def goto_def init_step_def split: if_splits)

lemma each_worker_main:
  assumes "each_worker P s" "each_worker Q s"
    "workers s' = (if mpc s = M_Create then workers s @ [new_worker] else workers s)"
    "mpc s = M_Create \<Longrightarrow> P s' (length (workers s)) new_worker"
    "\<And>u x. P s u x \<Longrightarrow> Q s u x \<Longrightarrow> P s' u x"
  shows "each_worker P s'"
  using assms by (auto simp: each_worker_def nth_append less_Suc_eq split: if_splits)

lemma each_worker_empty: "workers s = [] \<Longrightarrow> each_worker P s"
  by (simp add: each_worker_def)

lemma main_lock_main:
  assumes "p2_inv s" "main_step cfg s = Some s'"
  shows "each_worker (lock_ok holds_main mainLock) s'"
proof (cases "pre_spawn (mpc s)")
  case True
  from assms(1) True have "workers s = []" by (simp add: p2_inv_def fresh_ok_def fresh_def)
  with pre_spawn_main[OF assms(2) True] show ?thesis by (simp add: each_worker_empty)
next
  case False
  from assms(1) have e: "each_worker (lock_ok holds_main mainLock) s" and q: "each_worker phase_ok s"
    and a: "hold_ok s" by (simp_all add: p2_inv_def)
  show ?thesis
  proof (rule each_worker_main[OF e q main_step_workers[OF assms(2)]])
    assume "mpc s = M_Create"
    then show "(lock_ok holds_main mainLock) s' (length (workers s)) new_worker"
      using assms(2) by (simp add: main_step_def goto_def init_step_def lock_ok_def new_worker_def)
  next
    fix u x assume "(lock_ok holds_main mainLock) s u x" "phase_ok s u x"
    then show "(lock_ok holds_main mainLock) s' u x"
      using assms(2) False a
      by (cases "mpc s")
         (auto simp: main_step_def goto_def init_step_def lock_ok_def phase_ok_def hold_ok_def split: if_splits option.splits)
  qed
qed

lemma count_lock_main:
  assumes "p2_inv s" "main_step cfg s = Some s'"
  shows "each_worker (lock_ok holds_count countLock) s'"
proof (cases "pre_spawn (mpc s)")
  case True
  from assms(1) True have "workers s = []" by (simp add: p2_inv_def fresh_ok_def fresh_def)
  with pre_spawn_main[OF assms(2) True] show ?thesis by (simp add: each_worker_empty)
next
  case False
  from assms(1) have e: "each_worker (lock_ok holds_count countLock) s" and q: "each_worker phase_ok s"
    and a: "hold_ok s" by (simp_all add: p2_inv_def)
  show ?thesis
  proof (rule each_worker_main[OF e q main_step_workers[OF assms(2)]])
    assume "mpc s = M_Create"
    then show "(lock_ok holds_count countLock) s' (length (workers s)) new_worker"
      using assms(2) by (simp add: main_step_def goto_def init_step_def lock_ok_def new_worker_def)
  next
    fix u x assume "(lock_ok holds_count countLock) s u x" "phase_ok s u x"
    then show "(lock_ok holds_count countLock) s' u x"
      using assms(2) False a
      by (cases "mpc s")
         (auto simp: main_step_def goto_def init_step_def lock_ok_def phase_ok_def hold_ok_def split: if_splits option.splits)
  qed
qed

lemma decre_lock_main:
  assumes "p2_inv s" "main_step cfg s = Some s'"
  shows "each_worker (lock_ok holds_decre decreLock) s'"
proof (cases "pre_spawn (mpc s)")
  case True
  from assms(1) True have "workers s = []" by (simp add: p2_inv_def fresh_ok_def fresh_def)
  with pre_spawn_main[OF assms(2) True] show ?thesis by (simp add: each_worker_empty)
next
  case False
  from assms(1) have e: "each_worker (lock_ok holds_decre decreLock) s" and q: "each_worker phase_ok s"
    and a: "hold_ok s" by (simp_all add: p2_inv_def)
  show ?thesis
  proof (rule each_worker_main[OF e q main_step_workers[OF assms(2)]])
    assume "mpc s = M_Create"
    then show "(lock_ok holds_decre decreLock) s' (length (workers s)) new_worker"
      using assms(2) by (simp add: main_step_def goto_def init_step_def lock_ok_def new_worker_def)
  next
    fix u x assume "(lock_ok holds_decre decreLock) s u x" "phase_ok s u x"
    then show "(lock_ok holds_decre decreLock) s' u x"
      using assms(2) False a
      by (cases "mpc s")
         (auto simp: main_step_def goto_def init_step_def lock_ok_def phase_ok_def hold_ok_def split: if_splits option.splits)
  qed
qed

lemma thread_lock_main:
  assumes "p2_inv s" "main_step cfg s = Some s'"
  shows "each_worker (lock_ok takes_thread threadLock) s'"
proof (cases "pre_spawn (mpc s)")
  case True
  from assms(1) True have "workers s = []" by (simp add: p2_inv_def fresh_ok_def fresh_def)
  with pre_spawn_main[OF assms(2) True] show ?thesis by (simp add: each_worker_empty)
next
  case False
  from assms(1) have e: "each_worker (lock_ok takes_thread threadLock) s" and q: "each_worker phase_ok s"
    and a: "spawn_ok s" by (simp_all add: p2_inv_def)
  show ?thesis
  proof (rule each_worker_main[OF e q main_step_workers[OF assms(2)]])
    assume "mpc s = M_Create"
    then show "(lock_ok takes_thread threadLock) s' (length (workers s)) new_worker"
      using assms(2) by (simp add: main_step_def goto_def init_step_def lock_ok_def new_worker_def)
  next
    fix u x assume "(lock_ok takes_thread threadLock) s u x" "phase_ok s u x"
    then show "(lock_ok takes_thread threadLock) s' u x"
      using assms(2) False a
      by (cases "mpc s")
         (auto simp: main_step_def goto_def init_step_def lock_ok_def phase_ok_def spawn_ok_def split: if_splits option.splits)
  qed
qed

lemma phase_main:
  assumes "p2_inv s" "main_step cfg s = Some s'"
  shows "each_worker phase_ok s'"
proof (cases "pre_spawn (mpc s)")
  case True
  from assms(1) True have "workers s = []" by (simp add: p2_inv_def fresh_ok_def fresh_def)
  with pre_spawn_main[OF assms(2) True] show ?thesis by (simp add: each_worker_empty)
next
  case False
  from assms(1) have e: "each_worker phase_ok s" and q: "each_worker phase_ok s"
    and a: "hold_ok s" by (simp_all add: p2_inv_def)
  show ?thesis
  proof (rule each_worker_main[OF e q main_step_workers[OF assms(2)]])
    assume "mpc s = M_Create"
    then show "phase_ok s' (length (workers s)) new_worker"
      using assms(2) by (simp add: main_step_def goto_def init_step_def phase_ok_def new_worker_def)
  next
    fix u x assume "phase_ok s u x" "phase_ok s u x"
    then show "phase_ok s' u x"
      using assms(2) False a
      by (cases "mpc s")
         (auto simp: main_step_def goto_def init_step_def phase_ok_def phase_ok_def hold_ok_def split: if_splits option.splits)
  qed
qed

lemma loop_main:
  assumes "p2_inv s" "main_step cfg s = Some s'"
  shows "each_worker loop_ok s'"
proof (cases "pre_spawn (mpc s)")
  case True
  from assms(1) True have "workers s = []" by (simp add: p2_inv_def fresh_ok_def fresh_def)
  with pre_spawn_main[OF assms(2) True] show ?thesis by (simp add: each_worker_empty)
next
  case False
  from assms(1) have e: "each_worker loop_ok s" and q: "each_worker phase_ok s"
    and a: "hold_ok s" by (simp_all add: p2_inv_def)
  show ?thesis
  proof (rule each_worker_main[OF e q main_step_workers[OF assms(2)]])
    assume "mpc s = M_Create"
    then show "loop_ok s' (length (workers s)) new_worker"
      using assms(2) by (simp add: main_step_def goto_def init_step_def loop_ok_def new_worker_def)
  next
    fix u x assume "loop_ok s u x" "phase_ok s u x"
    then show "loop_ok s' u x"
      using main_step_num_loops[OF assms(2) False] by (simp add: loop_ok_def)
  qed
qed

lemma creg_main:
  assumes "p2_inv s" "main_step cfg s = Some s'"
  shows "each_worker creg_ok s'"
proof (cases "pre_spawn (mpc s)")
  case True
  from assms(1) True have "workers s = []" by (simp add: p2_inv_def fresh_ok_def fresh_def)
  with pre_spawn_main[OF assms(2) True] show ?thesis by (simp add: each_worker_empty)
next
  case False
  from assms(1) have e: "each_worker creg_ok s" and q: "each_worker phase_ok s"
    and a: "hold_ok s" by (simp_all add: p2_inv_def)
  show ?thesis
  proof (rule each_worker_main[OF e q main_step_workers[OF assms(2)]])
    assume "mpc s = M_Create"
    then show "creg_ok s' (length (workers s)) new_worker"
      using assms(2) by (simp add: main_step_def goto_def init_step_def creg_ok_def new_worker_def)
  next
    fix u x assume "creg_ok s u x" "phase_ok s u x"
    then show "creg_ok s' u x"
      using assms(2) False a
      by (cases "mpc s")
         (auto simp: main_step_def goto_def init_step_def creg_ok_def phase_ok_def hold_ok_def split: if_splits option.splits)
  qed
qed

lemma treg_main:
  assumes "p2_inv s" "main_step cfg s = Some s'"
  shows "each_worker treg_ok s'"
proof (cases "pre_spawn (mpc s)")
  case True
  from assms(1) True have "workers s = []" by (simp add: p2_inv_def fresh_ok_def fresh_def)
  with pre_spawn_main[OF assms(2) True] show ?thesis by (simp add: each_worker_empty)
next
  case False
  from assms(1) have e: "each_worker treg_ok s" and q: "each_worker phase_ok s"
    and a: "spawn_ok s" by (simp_all add: p2_inv_def)
  show ?thesis
  proof (rule each_worker_main[OF e q main_step_workers[OF assms(2)]])
    assume "mpc s = M_Create"
    then show "treg_ok s' (length (workers s)) new_worker"
      using assms(2) by (simp add: main_step_def goto_def init_step_def treg_ok_def new_worker_def)
  next
    fix u x assume "treg_ok s u x" "phase_ok s u x"
    then show "treg_ok s' u x"
      using assms(2) False a
      by (cases "mpc s")
         (auto simp: main_step_def goto_def init_step_def treg_ok_def phase_ok_def spawn_ok_def split: if_splits option.splits)
  qed
qed


lemma fresh_main:
  assumes "p2_inv s" "main_step cfg s = Some s'"
  shows "fresh_ok s'"
proof -
  from assms(1) have "fresh_ok s" by (simp add: p2_inv_def)
  then show ?thesis using assms(2)
    by (cases "mpc s")
       (auto simp: main_step_def goto_def init_step_def fresh_ok_def fresh_def split: if_splits option.splits)
qed

lemma spawn_main:
  assumes "p2_inv s" "main_step cfg s = Some s'"
  shows "spawn_ok s'"
proof -
  from assms(1) have "fresh_ok s" "spawn_ok s" "test_ok s" by (simp_all add: p2_inv_def)
  then show ?thesis using assms(2)
    by (cases "mpc s")
       (auto simp: main_step_def goto_def init_step_def fresh_ok_def fresh_def spawn_ok_def test_ok_def
             split: if_splits option.splits)
qed

lemma test_main:
  assumes "p2_inv s" "main_step cfg s = Some s'"
  shows "test_ok s'"
proof -
  from assms(1) have "test_ok s" "spawn_ok s" by (simp_all add: p2_inv_def)
  then show ?thesis using assms(2)
    by (cases "mpc s")
       (auto simp: main_step_def goto_def init_step_def test_ok_def spawn_ok_def
             split: if_splits option.splits)
qed

lemma hold_main:
  assumes "p2_inv s" "main_step cfg s = Some s'"
  shows "hold_ok s'"
proof -
  from assms(1) have "hold_ok s" by (simp add: p2_inv_def)
  then show ?thesis using assms(2)
    by (cases "mpc s") (auto simp: main_step_def goto_def init_step_def hold_ok_def split: if_splits option.splits)
qed

lemma fin_main:
  assumes "p2_inv s" "main_step cfg s = Some s'"
  shows "fin_ok s'"
proof -
  from assms(1) have "fin_ok s" "threads_ok s" by (simp_all add: p2_inv_def)
  then show ?thesis using assms(2) sum_live_nonneg[of "workers s"]
    by (cases "mpc s")
       (auto simp: main_step_def goto_def init_step_def fin_ok_def threads_ok_def split: if_splits option.splits)
qed

lemma length_main:
  assumes "p2_inv s" "main_step cfg s = Some s'"
  shows "length_ok s'"
proof -
  from assms(1) have "length_ok s" "fresh_ok s" "spawn_ok s" "test_ok s" by (simp_all add: p2_inv_def)
  then show ?thesis using assms(2)
    by (cases "mpc s")
       (auto simp: main_step_def goto_def init_step_def length_ok_def fresh_ok_def fresh_def spawn_ok_def test_ok_def
             split: if_splits option.splits)
qed

lemma start_main:
  assumes "p2_inv s" "main_step cfg s = Some s'"
  shows "start_ok s'"
proof -
  from assms(1) have "start_ok s" by (simp add: p2_inv_def)
  then show ?thesis using assms(2)
    by (cases "mpc s") (auto simp: main_step_def goto_def init_step_def start_ok_def split: if_splits option.splits)
qed

lemma printed_main:
  assumes "p2_inv s" "main_step cfg s = Some s'"
  shows "printed_ok s'"
proof -
  from assms(1) have "printed_ok s" by (simp add: p2_inv_def)
  then show ?thesis using assms(2)
    by (cases "mpc s") (auto simp: main_step_def goto_def init_step_def printed_ok_def split: if_splits option.splits)
qed

lemma counter_main:
  assumes "p2_inv s" "main_step cfg s = Some s'"
  shows "counter_ok s'"
proof -
  from assms(1) have "counter_ok s" "fresh_ok s" by (simp_all add: p2_inv_def)
  then show ?thesis using assms(2)
    by (cases "mpc s")
       (auto simp: main_step_def goto_def init_step_def counter_ok_def fresh_ok_def fresh_def new_worker_def increments_def
             split: if_splits option.splits)
qed

lemma threads_main:
  assumes "p2_inv s" "main_step cfg s = Some s'"
  shows "threads_ok s'"
proof -
  from assms(1) have "threads_ok s" "fresh_ok s" "test_ok s" by (simp_all add: p2_inv_def)
  then show ?thesis using assms(2)
    by (cases "mpc s")
       (auto simp: main_step_def goto_def init_step_def threads_ok_def fresh_ok_def fresh_def test_ok_def new_worker_def
             live_def split: if_splits option.splits)
qed

lemma inv_main:
  assumes "p2_inv s" "main_step cfg s = Some s'"
  shows "p2_inv s'"
  unfolding p2_inv_def
  using fresh_main[OF assms] spawn_main[OF assms] test_main[OF assms] hold_main[OF assms]
    fin_main[OF assms] length_main[OF assms] start_main[OF assms] printed_main[OF assms]
    counter_main[OF assms] threads_main[OF assms] main_lock_main[OF assms]
    count_lock_main[OF assms] decre_lock_main[OF assms] thread_lock_main[OF assms]
    phase_main[OF assms] loop_main[OF assms] creg_main[OF assms] treg_main[OF assms]
  by simp


subsection \<open>Wakeups\<close>

text \<open>A wakeup moves the waiter from \<open>W_Waiting\<close> to \<open>W_Reacquire\<close>, and a signal also
  moves the signaller from \<open>W_Signal\<close> to \<open>W_UnlockDecre\<close>: in both moves the worker stays
  in the same classes of program points.\<close>

lemma jump_frame:
  "mpc (jump u p s) = mpc s" "start (jump u p s) = start s" "counter (jump u p s) = counter s"
  "threads (jump u p s) = threads s" "num_loops (jump u p s) = num_loops s"
  "num_threads (jump u p s) = num_threads s" "firstRun (jump u p s) = firstRun s"
  "countLock (jump u p s) = countLock s" "decreLock (jump u p s) = decreLock s"
  "mainLock (jump u p s) = mainLock s" "threadLock (jump u p s) = threadLock s"
  "mreg (jump u p s) = mreg s" "printed (jump u p s) = printed s"
  "length (workers (jump u p s)) = length (workers s)"
  "workers (jump u p s) = (workers s)[u := (workers s ! u)\<lparr>wpc := p\<rparr>]"
  "complaint (jump u p s) = complaint s"
  by (simp_all add: jump_def put_worker_def)

lemma jump_others: "v \<noteq> u \<Longrightarrow> workers (jump u p s) ! v = workers s ! v"
  by (simp add: jump_def put_worker_def)

lemma jump_self:
  "u < length (workers s) \<Longrightarrow> workers (jump u p s) ! u = (workers s ! u)\<lparr>wpc := p\<rparr>"
  by (simp add: jump_def put_worker_def)

lemma inv_jump:
  assumes "p2_inv s" "u < length (workers s)"
    "wpc (workers s ! u) = W_Waiting \<and> p = W_Reacquire
       \<or> wpc (workers s ! u) = W_Signal \<and> p = W_UnlockDecre"
  shows "p2_inv (jump u p s)"
proof -
  let ?s = "jump u p s"
  from assms(1) have f: "fresh_ok s" by (simp add: p2_inv_def)
  from f assms(2) have ns: "\<not> pre_spawn (mpc s)" by (rule not_pre_spawn)
  have main: "fresh_ok ?s" "spawn_ok ?s" "test_ok ?s" "hold_ok ?s" "fin_ok ?s" "length_ok ?s"
    "start_ok ?s"
    using assms(1) ns
    by (simp_all add: p2_inv_def fresh_ok_def spawn_ok_def test_ok_def hold_ok_def fin_ok_def
          length_ok_def start_ok_def jump_frame del: jump_frame(15))
  have pr: "printed_ok ?s"
    using assms(1) by (simp add: p2_inv_def printed_ok_def jump_frame del: jump_frame(15))
  have c: "increments ((workers s ! u)\<lparr>wpc := p\<rparr>) = increments (workers s ! u)"
    using assms(3) by (auto simp: increments_def)
  have l: "live ((workers s ! u)\<lparr>wpc := p\<rparr>) = live (workers s ! u)"
    using assms(3) by (auto simp: live_def)
  have co: "counter_ok ?s"
    using assms(1) assms(2) c by (simp add: p2_inv_def counter_ok_def jump_frame sum_list_map_upd)
  have th: "threads_ok ?s"
    using assms(1) assms(2) l by (simp add: p2_inv_def threads_ok_def jump_frame sum_list_map_upd)
  have w: "each_worker P ?s"
    if e: "each_worker P s" and self: "P s u (workers s ! u) \<Longrightarrow> P ?s u ((workers s ! u)\<lparr>wpc := p\<rparr>)"
      and oth: "\<And>v x. P s v x \<Longrightarrow> P ?s v x" for P
  proof (rule each_worker_step[OF e e jump_frame(14) jump_others])
    from e assms(2) have "P s u (workers s ! u)" by (rule each_workerD)
    then show "P ?s u (workers ?s ! u)" using self assms(2) by (simp add: jump_self)
  next
    fix v x assume "P s v x" then show "P ?s v x" by (rule oth)
  qed
  have w1: "each_worker (lock_ok holds_main mainLock) ?s"
    using assms(1) assms(3) by (intro w) (auto simp: p2_inv_def lock_ok_def jump_frame)
  have w2: "each_worker (lock_ok holds_count countLock) ?s"
    using assms(1) assms(3) by (intro w) (auto simp: p2_inv_def lock_ok_def jump_frame)
  have w3: "each_worker (lock_ok holds_decre decreLock) ?s"
    using assms(1) assms(3) by (intro w) (auto simp: p2_inv_def lock_ok_def jump_frame)
  have w4: "each_worker (lock_ok takes_thread threadLock) ?s"
    using assms(1) assms(3) by (intro w) (auto simp: p2_inv_def lock_ok_def jump_frame)
  have w5: "each_worker phase_ok ?s"
    using assms(1) assms(3) by (intro w) (auto simp: p2_inv_def phase_ok_def jump_frame)
  have w6: "each_worker loop_ok ?s"
    using assms(1) assms(3) by (intro w) (auto simp: p2_inv_def loop_ok_def jump_frame)
  have w7: "each_worker creg_ok ?s"
    using assms(1) assms(3) by (intro w) (auto simp: p2_inv_def creg_ok_def jump_frame)
  have w8: "each_worker treg_ok ?s"
    using assms(1) assms(3) by (intro w) (auto simp: p2_inv_def treg_ok_def jump_frame)
  show ?thesis
    unfolding p2_inv_def using main pr co th w1 w2 w3 w4 w5 w6 w7 w8 by simp
qed

subsection \<open>Reachable states\<close>

lemma inv_init: "p2_inv init_state"
  by (simp add: p2_inv_def init_state_def each_worker_def fresh_ok_def fresh_def spawn_ok_def
        test_ok_def hold_ok_def fin_ok_def length_ok_def start_ok_def printed_ok_def
        counter_ok_def threads_ok_def)

lemma inv_exec:
  assumes "p2_inv s" "exec cfg a s = Some s'"
  shows "p2_inv s'"
proof (cases a)
  case A_Main
  with assms show ?thesis by (simp add: exec_def inv_main)
next
  case (A_Thread t)
  with assms show ?thesis by (auto simp: exec_def split: if_splits intro: inv_thread)
next
  case (A_Signal t u)
  with assms(2) have c: "t < length (workers s)" "u < length (workers s)"
    "wpc (workers s ! t) = W_Signal" "wpc (workers s ! u) = W_Waiting"
    and s': "s' = jump t W_UnlockDecre (jump u W_Reacquire s)"
    by (auto simp: exec_def split: if_splits)
  from c(4) have i1: "p2_inv (jump u W_Reacquire s)" by (intro inv_jump[OF assms(1) c(2)]) simp
  from c have tu: "t \<noteq> u" by auto
  with c have p: "wpc (workers (jump u W_Reacquire s) ! t) = W_Signal" by (simp add: jump_others)
  from c(1) have "t < length (workers (jump u W_Reacquire s))" by (simp add: jump_frame(14))
  from i1 this show ?thesis unfolding s' by (rule inv_jump) (simp add: p)
next
  case (A_Spurious u)
  with assms show ?thesis by (auto simp: exec_def split: if_splits intro: inv_jump)
qed

lemma reachable_inv: "reachable cfg s \<Longrightarrow> p2_inv s"
  by (induction rule: reachable.induct) (auto intro: inv_init inv_exec)

section \<open>The workers never leave the condition wait\<close>

lemma run_blocked: "run cfg_one blocked_run init_state = Some st_blocked"
  by code_simp

lemma reach_blocked: "reachable cfg_one st_blocked"
  by (rule run_reachable[OF reach_init run_blocked])

lemma main_step_counter:
  "main_step cfg s = Some s' \<Longrightarrow> counter s' = counter s \<or> counter s' = 0"
  by (cases "mpc s") (auto simp: main_step_def goto_def init_step_def split: if_splits option.splits)

lemma blocked_exec:
  assumes "\<not> spurious cfg" "counter s = 0 \<and> each_worker before_wake s" "exec cfg a s = Some s'"
  shows "counter s' = 0 \<and> each_worker before_wake s'"
proof (cases a)
  case A_Main
  with assms(3) have m: "main_step cfg s = Some s'" by (simp add: exec_def)
  from assms(2) have e: "each_worker before_wake s" by simp
  have "each_worker before_wake s'"
    by (rule each_worker_main[OF e e main_step_workers[OF m]])
       (simp_all add: before_wake_def new_worker_def)
  with main_step_counter[OF m] assms(2) show ?thesis by auto
next
  case (A_Thread t)
  with assms(3) have t: "t < length (workers s)" and th: "thread_step t s = Some s'"
    by (auto simp: exec_def split: if_splits)
  from assms(2) have e: "each_worker before_wake s" by simp
  from e t have bt: "before_wake s t (workers s ! t)" by (rule each_workerD)
  have c: "counter s' = counter s"
    using th bt
    by (cases "wpc (workers s ! t)")
       (auto simp: thread_step_def jump_def put_worker_def Let_def before_wake_def split: if_splits)
  have "each_worker before_wake s'"
  proof (rule each_worker_step[OF e e thread_step_length[OF th] thread_step_others[OF th]])
    show "before_wake s' t (workers s' ! t)"
      using th t bt
      by (cases "wpc (workers s ! t)")
         (auto simp: thread_step_def jump_def put_worker_def Let_def before_wake_def split: if_splits)
  next
    fix u x assume "before_wake s u x"
    then show "before_wake s' u x" by (simp add: before_wake_def)
  qed
  with c assms(2) show ?thesis by simp
next
  case (A_Signal t u)
  with assms(3) have "t < length (workers s)" "wpc (workers s ! t) = W_Signal"
    by (auto simp: exec_def split: if_splits)
  with assms(2) show ?thesis by (auto simp: each_worker_def before_wake_def)
next
  case (A_Spurious u)
  with assms(1) assms(3) show ?thesis by (simp add: exec_def)
qed

lemma blocked_reachable:
  assumes "\<not> spurious cfg" "reachable cfg s"
  shows "counter s = 0 \<and> each_worker before_wake s"
  using assms(2)
proof (induction rule: reachable.induct)
  case reach_init
  show ?case by (simp add: init_state_def each_worker_def)
next
  case (reach_step s a s')
  then show ?case using blocked_exec[OF assms(1)] by blast
qed

lemma main_step_nth:
  "main_step cfg s = Some s' \<Longrightarrow> t < length (workers s) \<Longrightarrow> workers s' ! t = workers s ! t"
  by (simp add: main_step_workers nth_append)

text \<open>
  Claim C6. Every worker reaches \<^verbatim>\<open>pthread_cond_wait\<close> before its increment loop, and the
  only \<^verbatim>\<open>pthread_cond_signal\<close> comes after a worker's own loop and decrement. So when no
  wakeup is spurious, in every reachable state the counter is 0, no worker is past the
  wait (in particular none has finished), and a worker that waits still waits after any
  step of the system.
\<close>

theorem workers_block_forever:
  assumes "\<not> spurious cfg" "reachable cfg s"
  shows "counter s = 0
    \<and> (\<forall>w \<in> set (workers s). \<not> after_wait (wpc w) \<and> wpc w \<noteq> W_Done)
    \<and> (\<forall>t a s'. t < length (workers s) \<and> wpc (workers s ! t) = W_Waiting
           \<and> exec cfg a s = Some s' \<longrightarrow> wpc (workers s' ! t) = W_Waiting)"
proof -
  from blocked_reachable[OF assms] have c: "counter s = 0" and e: "each_worker before_wake s"
    by simp_all
  have b: "\<not> after_wait (wpc w) \<and> wpc w \<noteq> W_Done" if "w \<in> set (workers s)" for w
  proof -
    from that obtain t where "t < length (workers s)" "w = workers s ! t"
      by (auto simp: in_set_conv_nth)
    with e have "\<not> after_wait (wpc w)" by (simp add: each_worker_def before_wake_def)
    then show ?thesis by auto
  qed
  have k: "wpc (workers s' ! t) = W_Waiting"
    if t: "t < length (workers s)" and w: "wpc (workers s ! t) = W_Waiting"
      and x: "exec cfg a s = Some s'" for t a s'
  proof (cases a)
    case A_Main
    with x have "main_step cfg s = Some s'" by (simp add: exec_def)
    from main_step_nth[OF this t] w show ?thesis by simp
  next
    case (A_Thread u)
    with x have th: "thread_step u s = Some s'" by (auto simp: exec_def split: if_splits)
    with w have "u \<noteq> t" by (auto simp: thread_step_def)
    from thread_step_others[OF th this[symmetric]] w show ?thesis by simp
  next
    case (A_Signal v u)
    with x have "v < length (workers s)" "wpc (workers s ! v) = W_Signal"
      by (auto simp: exec_def split: if_splits)
    with e show ?thesis by (auto simp: each_worker_def before_wake_def)
  next
    case (A_Spurious u)
    with assms(1) x show ?thesis by (simp add: exec_def)
  qed
  from c b k show ?thesis by blast
qed

theorem workers_block_forever_witness:
  "\<not> spurious cfg_one \<and> reachable cfg_one st_blocked \<and> counter st_blocked = 0
    \<and> \<not> after_wait (wpc (workers st_blocked ! 0)) \<and> wpc (workers st_blocked ! 0) \<noteq> W_Done"
  using workers_block_forever[of cfg_one st_blocked] reach_blocked
  by (simp add: cfg_one_def st_blocked_def)

section \<open>The counter at completion\<close>

lemma elapsed_two: "sint (elapsed t_start t_finish) = 1000003"
  by (simp add: elapsed_def t_start_def t_finish_def US_PER_S_def)

lemma elapsed_cpu_two: "sint (elapsed_cpu 100 1600100) = 1600000"
  by (simp add: elapsed_cpu_def US_PER_S_def CLOCKS_PER_SEC_def signed_divide_int_def)

lemma times_two: "all_times t_start 100 t_finish 1600100 = ''1.000003s, cpu time 1.600000''"
proof -
  have c: "digit_char 0 = CHR ''0''" "digit_char (Suc 0) = CHR ''1''" "digit_char 3 = CHR ''3''"
    "digit_char 6 = CHR ''6''" "replicate 5 CHR ''0'' = ''00000''"
    by code_simp+
  have d: "fmt_ld 1 = ''1''" "fmt_06ld 3 = ''000003''" "fmt_06ld 600000 = ''600000''"
    by (simp_all add: fmt_ld_def fmt_06ld_def dec.simps c)
  show ?thesis
    by (simp add: all_times_def elapsed_two elapsed_cpu_two US_PER_S_def signed_divide_int_def
          signed_modulo_int_def d)
qed

lemma run_to_print:
  "run cfg_two (replicate 18 A_Main @ replicate 7 (A_Thread 0) @ replicate 4 (A_Thread 1)
     @ [A_Spurious 0] @ replicate 18 (A_Thread 0)
     @ [A_Spurious 1] @ replicate 19 (A_Thread 1) @ replicate 2 A_Main) init_state
   = Some (st_done\<lparr>mpc := M_Print, printed := None, line := None\<rparr>)"
  by code_simp

lemma run_done: "run cfg_two full_run init_state = Some st_done"
proof -
  have f: "full_run = (replicate 18 A_Main @ replicate 7 (A_Thread 0) @ replicate 4 (A_Thread 1)
     @ [A_Spurious 0] @ replicate 18 (A_Thread 0)
     @ [A_Spurious 1] @ replicate 19 (A_Thread 1) @ replicate 2 A_Main) @ [A_Main, A_Main]"
    by (simp add: full_run_def eval_nat_numeral)
  have c: "fmt_ld 4 = ''4''" by (simp add: fmt_ld_def dec.simps) code_simp
  show ?thesis
    by (subst f, subst run_append, subst run_to_print)
       (simp add: exec_def main_step_def st_done_def cfg_two_def times_two result_line_def c)
qed

lemma reach_done: "reachable cfg_two st_done"
  by (rule run_reachable[OF reach_init run_done])

lemma started_pending: "started p \<Longrightarrow> pending p = 0"
  by (cases p) auto

lemma started_length:
  "started p \<Longrightarrow> \<not> pre_spawn p \<and> \<not> in_test p \<and> p \<noteq> M_SpawnTest"
  by (cases p) auto

lemma sum_list_const:
  "(\<And>t. t < length ws \<Longrightarrow> f (ws ! t) = (c::int)) \<Longrightarrow> sum_list (map f ws) = int (length ws) * c"
proof (induction ws)
  case Nil
  then show ?case by simp
next
  case (Cons w ws)
  have "f w = c" using Cons.prems[of 0] by simp
  moreover have "sum_list (map f ws) = int (length ws) * c"
  proof (rule Cons.IH)
    fix t assume "t < length ws"
    then show "f (ws ! t) = c" using Cons.prems[of "Suc t"] by simp
  qed
  ultimately show ?case by (simp add: algebra_simps)
qed

lemma departed_post_loop: "departed p \<Longrightarrow> post_loop p \<and> p \<noteq> W_UnlockCount"
  by (cases p) auto

lemma all_departed:
  assumes "p2_inv s" "started (mpc s)" "threads s = 0" "t < length (workers s)"
  shows "departed (wpc (workers s ! t))"
proof -
  from assms(1) have "threads_ok s" by (simp add: p2_inv_def)
  with assms(2,3) have "sum_list (map live (workers s)) = 0"
    by (simp add: threads_ok_def started_pending)
  with live_le_sum[OF assms(4)] have "live (workers s ! t) \<le> 0" by simp
  then show ?thesis by (simp add: live_def split: if_splits)
qed



section \<open>The counter is touched under its guard\<close>

lemma run_incr: "run cfg_two incr_run init_state = Some st_incr"
  by code_simp

lemma reach_incr: "reachable cfg_two st_incr"
  by (rule run_reachable[OF reach_init run_incr])

lemma not_alive_cases: "\<not> alive s \<Longrightarrow> pre_spawn (mpc s) \<or> finished (mpc s)"
  by (cases "mpc s") (auto simp: alive_def)

lemma undeparted_alive:
  assumes "p2_inv s" "t < length (workers s)" "\<not> departed (wpc (workers s ! t))"
  shows "alive s"
proof (rule ccontr)
  assume "\<not> alive s"
  then have "pre_spawn (mpc s) \<or> finished (mpc s)" by (rule not_alive_cases)
  then show False
  proof
    assume "pre_spawn (mpc s)"
    with assms(1,2) show False by (simp add: p2_inv_def fresh_ok_def fresh_def)
  next
    assume "finished (mpc s)"
    from departed_when_finished[OF assms(1) this assms(2)] assms(3) show False by simp
  qed
qed

lemma touch_guarded:
  assumes "p2_inv s" "exec cfg a s = Some s'" "touches_counter a s"
  shows "(\<exists>t. a = A_Thread t \<and> countLock s = Held (Worker t))
       \<or> (a = A_Main \<and> (\<forall>w \<in> set (workers s). post_loop (wpc w)))"
proof (cases a)
  case A_Main
  have "post_loop (wpc w)" if "w \<in> set (workers s)" for w
  proof -
    from that obtain t where t: "t < length (workers s)" "w = workers s ! t"
      by (auto simp: in_set_conv_nth)
    from assms(1) t(1) have "\<not> pre_spawn (mpc s)" by (simp add: p2_inv_def not_pre_spawn)
    with assms(3) A_Main have "finished (mpc s)" by (auto simp: touches_counter_def)
    from departed_when_finished[OF assms(1) this t(1)] t(2) show ?thesis
      by (simp add: departed_post_loop)
  qed
  with A_Main show ?thesis by simp
next
  case (A_Thread t)
  with assms(2) have t: "t < length (workers s)" by (auto simp: exec_def split: if_splits)
  from assms(3) A_Thread have "holds_count (wpc (workers s ! t))"
    by (auto simp: touches_counter_def)
  moreover from assms(1) t have "lock_ok holds_count countLock s t (workers s ! t)"
    by (simp add: p2_inv_def each_worker_def)
  ultimately show ?thesis using A_Thread by (simp add: lock_ok_def)
next
  case (A_Signal t u)
  with assms(3) show ?thesis by (simp add: touches_counter_def)
next
  case (A_Spurious u)
  with assms(3) show ?thesis by (simp add: touches_counter_def)
qed

lemma counter_change:
  assumes "p2_inv s" "exec cfg a s = Some s'" "counter s' \<noteq> counter s"
  shows "\<exists>t. a = A_Thread t \<and> wpc (workers s ! t) = W_IncWrite \<and> counter s' = counter s + 1"
proof (cases a)
  case A_Main
  with assms(2) have m: "main_step cfg s = Some s'" by (simp add: exec_def)
  from assms(1) have "fresh_ok s" by (simp add: p2_inv_def)
  with m have "counter s' = counter s"
    by (cases "mpc s")
       (auto simp: main_step_def goto_def init_step_def fresh_ok_def fresh_def
             split: if_splits option.splits)
  with assms(3) show ?thesis by simp
next
  case (A_Thread t)
  with assms(2) have t: "t < length (workers s)" and th: "thread_step t s = Some s'"
    by (auto simp: exec_def split: if_splits)
  from assms(1) t have "creg_ok s t (workers s ! t)" by (simp add: p2_inv_def each_worker_def)
  with th assms(3) have "wpc (workers s ! t) = W_IncWrite \<and> counter s' = counter s + 1"
    by (cases "wpc (workers s ! t)")
       (auto simp: thread_step_def jump_def put_worker_def Let_def creg_ok_def split: if_splits)
  with A_Thread show ?thesis by simp
next
  case (A_Signal t u)
  with assms(2,3) show ?thesis by (auto simp: exec_def jump_frame split: if_splits)
next
  case (A_Spurious u)
  with assms(2,3) show ?thesis by (auto simp: exec_def jump_frame split: if_splits)
qed

lemma critical_section:
  assumes "thread_step t s = Some s'" "t < length (workers s)"
  shows "(wpc (workers s ! t) = W_LockCount \<longrightarrow>
            countLock s = Free \<and> countLock s' = Held (Worker t) \<and> wpc (workers s' ! t) = W_IncRead)
       \<and> (wpc (workers s ! t) = W_IncRead \<longrightarrow>
            countLock s' = countLock s \<and> wpc (workers s' ! t) = W_IncWrite)
       \<and> (wpc (workers s ! t) = W_IncWrite \<longrightarrow>
            countLock s' = countLock s \<and> wpc (workers s' ! t) = W_UnlockCount)
       \<and> (wpc (workers s ! t) = W_UnlockCount \<longrightarrow>
            countLock s' = Free \<and> wpc (workers s' ! t) = W_LoopTest)"
  using assms
  by (cases "wpc (workers s ! t)")
     (auto simp: thread_step_def jump_def put_worker_def Let_def split: if_splits)

lemma holder_enabled:
  assumes "p2_inv s" "t < length (workers s)" "holds_count (wpc (workers s ! t))"
  shows "exec cfg (A_Thread t) s \<noteq> None"
proof -
  from assms(3) have "\<not> departed (wpc (workers s ! t))" by (cases "wpc (workers s ! t)") auto
  with assms(1,2) have a: "alive s" by (rule undeparted_alive)
  from assms(1,2) have "lock_ok holds_count countLock s t (workers s ! t)"
    by (simp add: p2_inv_def each_worker_def)
  with assms(3) have "countLock s = Held (Worker t)" by (simp add: lock_ok_def)
  with assms(3) have "thread_step t s \<noteq> None"
    by (cases "wpc (workers s ! t)") (auto simp: thread_step_def Let_def)
  with a assms(2) show ?thesis by (simp add: exec_def)
qed

text \<open>
  Claim C2. A step that reads or writes the counter is a step of a worker that holds
  \<^verbatim>\<open>countLock\<close>, or a step of \<^verbatim>\<open>main\<close> taken when every worker is past its loop (or
  none exists yet). The counter changes only by the write of \<^verbatim>\<open>state->counter++\<close>, which
  adds exactly 1 to the value in memory. A worker takes the free guard right before the
  read, keeps it over the read and the write, and frees it in its next step; a worker that
  holds the guard is never blocked, so it always releases it.
\<close>

theorem counter_guarded:
  assumes "reachable cfg s" "exec cfg a s = Some s'"
  shows "(touches_counter a s \<longrightarrow>
            (\<exists>t. a = A_Thread t \<and> countLock s = Held (Worker t))
          \<or> (a = A_Main \<and> (\<forall>w \<in> set (workers s). post_loop (wpc w))))
       \<and> (counter s' \<noteq> counter s \<longrightarrow>
            (\<exists>t. a = A_Thread t \<and> wpc (workers s ! t) = W_IncWrite
                 \<and> counter s' = counter s + 1))
       \<and> (\<forall>t. a = A_Thread t \<longrightarrow>
            (wpc (workers s ! t) = W_LockCount \<longrightarrow>
               countLock s = Free \<and> countLock s' = Held (Worker t)
               \<and> wpc (workers s' ! t) = W_IncRead)
          \<and> (wpc (workers s ! t) = W_IncRead \<longrightarrow>
               countLock s' = countLock s \<and> wpc (workers s' ! t) = W_IncWrite)
          \<and> (wpc (workers s ! t) = W_IncWrite \<longrightarrow>
               countLock s' = countLock s \<and> wpc (workers s' ! t) = W_UnlockCount)
          \<and> (wpc (workers s ! t) = W_UnlockCount \<longrightarrow>
               countLock s' = Free \<and> wpc (workers s' ! t) = W_LoopTest))
       \<and> (\<forall>t < length (workers s). holds_count (wpc (workers s ! t)) \<longrightarrow>
            exec cfg (A_Thread t) s \<noteq> None)"
proof -
  from assms(1) have i: "p2_inv s" by (rule reachable_inv)
  have c: "thread_step t s = Some s' \<and> t < length (workers s)" if "a = A_Thread t" for t
    using that assms(2) by (auto simp: exec_def split: if_splits)
  show ?thesis
  proof (intro conjI allI impI)
    assume "touches_counter a s"
    with i assms(2) show "(\<exists>t. a = A_Thread t \<and> countLock s = Held (Worker t))
          \<or> (a = A_Main \<and> (\<forall>w \<in> set (workers s). post_loop (wpc w)))"
      by (rule touch_guarded)
  next
    assume "counter s' \<noteq> counter s"
    with i assms(2) show "\<exists>t. a = A_Thread t \<and> wpc (workers s ! t) = W_IncWrite
                 \<and> counter s' = counter s + 1"
      by (rule counter_change)
  next
    fix t assume "t < length (workers s)" "holds_count (wpc (workers s ! t))"
    with i show "exec cfg (A_Thread t) s \<noteq> None" by (rule holder_enabled)
  qed (use c critical_section in blast)+
qed

theorem counter_guarded_witness:
  "reachable cfg_two st_incr
     \<and> exec cfg_two (A_Thread 0) st_incr = Some (jump 0 W_UnlockCount (st_incr\<lparr>counter := 1\<rparr>))
     \<and> touches_counter (A_Thread 0) st_incr \<and> countLock st_incr = Held (Worker 0)
     \<and> counter (jump 0 W_UnlockCount (st_incr\<lparr>counter := 1\<rparr>)) = counter st_incr + 1"
proof -
  have e: "exec cfg_two (A_Thread 0) st_incr = Some (jump 0 W_UnlockCount (st_incr\<lparr>counter := 1\<rparr>))"
    by code_simp
  have t: "touches_counter (A_Thread 0) st_incr" by code_simp
  from counter_guarded[OF reach_incr e] reach_incr e t show ?thesis
    by (simp add: st_incr_def jump_def put_worker_def)
qed

section \<open>The start flag\<close>



lemma exec_frame:
  assumes "exec cfg a s = Some s'" "a \<noteq> A_Main"
  shows "mpc s' = mpc s \<and> start s' = start s \<and> num_threads s' = num_threads s
       \<and> length (workers s') = length (workers s) \<and> complaint s' = complaint s"
proof (cases a)
  case A_Main
  with assms(2) show ?thesis by simp
next
  case (A_Thread t)
  with assms(1) have "thread_step t s = Some s'" by (auto simp: exec_def split: if_splits)
  from thread_step_frame[OF this] thread_step_length[OF this] show ?thesis by simp
next
  case (A_Signal t u)
  with assms(1) show ?thesis by (auto simp: exec_def jump_frame split: if_splits)
next
  case (A_Spurious u)
  with assms(1) show ?thesis by (auto simp: exec_def jump_frame split: if_splits)
qed

lemma start_change:
  assumes "p2_inv s" "exec cfg a s = Some s'" "start s' \<noteq> start s"
  shows "a = A_Main \<and> mpc s = M_SetStart"
proof (cases "a = A_Main")
  case False
  from exec_frame[OF assms(2) False] assms(3) show ?thesis by simp
next
  case True
  with assms(2) have m: "main_step cfg s = Some s'" by (simp add: exec_def)
  from assms(1) have "fresh_ok s" by (simp add: p2_inv_def)
  with m assms(3) have "mpc s = M_SetStart"
    by (cases "mpc s")
       (auto simp: main_step_def goto_def init_step_def fresh_ok_def fresh_def
             split: if_splits option.splits)
  with True show ?thesis by simp
qed

lemma started_start: "p2_inv s \<Longrightarrow> start s = 1 \<longleftrightarrow> started (mpc s)"
  by (simp add: p2_inv_def start_ok_def)

lemma spin_started:
  assumes "p2_inv s" "t < length (workers s)" "wpc (workers s ! t) = W_Spin"
  shows "start s = 1"
proof -
  from assms(1,2) have "phase_ok s t (workers s ! t)" by (simp add: p2_inv_def each_worker_def)
  with assms(3) have "after_spawn (mpc s)" by (simp add: phase_ok_def)
  then have "started (mpc s)" by (cases "mpc s") auto
  with assms(1) show ?thesis by (simp add: started_start)
qed

lemma start_stays:
  assumes "p2_inv s" "exec cfg a s = Some s'" "start s = 1"
  shows "start s' = 1"
proof (rule ccontr)
  assume "start s' \<noteq> 1"
  with assms(3) have "start s' \<noteq> start s" by simp
  from start_change[OF assms(1,2) this] assms(1,3) show False by (simp add: started_start)
qed



section \<open>The live-worker count\<close>

lemma exec_stuck: "exec cfg_one A_Main st_blocked = Some st_stuck"
  by code_simp

lemma threads_nonneg: "p2_inv s \<Longrightarrow> 0 \<le> threads s"
proof -
  assume i: "p2_inv s"
  show ?thesis
  proof (cases "pending (mpc s) = 0")
    case True
    with i sum_live_nonneg[of "workers s"] show ?thesis by (simp add: p2_inv_def threads_ok_def)
  next
    case False
    then have "in_test (mpc s)" by (cases "mpc s") auto
    with i show ?thesis by (simp add: p2_inv_def test_ok_def)
  qed
qed

lemma threads_change:
  assumes "p2_inv s" "exec cfg a s = Some s'" "threads s' \<noteq> threads s"
  shows "(a = A_Main \<and> mpc s = M_IncWrite \<and> threadLock s = Held Coordinator
            \<and> threads s' = threads s + 1)
       \<or> (\<exists>t. a = A_Thread t \<and> wpc (workers s ! t) = W_DecWrite
            \<and> decreLock s = Held (Worker t) \<and> threads s' = threads s - 1)"
proof (cases a)
  case A_Main
  with assms(2) have m: "main_step cfg s = Some s'" by (simp add: exec_def)
  from assms(1) have "fresh_ok s" "test_ok s" "spawn_ok s" by (simp_all add: p2_inv_def)
  with m assms(3) have "mpc s = M_IncWrite \<and> threadLock s = Held Coordinator
            \<and> threads s' = threads s + 1"
    by (cases "mpc s")
       (auto simp: main_step_def goto_def init_step_def fresh_ok_def fresh_def test_ok_def
             spawn_ok_def split: if_splits option.splits)
  with A_Main show ?thesis by simp
next
  case (A_Thread t)
  with assms(2) have t: "t < length (workers s)" and th: "thread_step t s = Some s'"
    by (auto simp: exec_def split: if_splits)
  from assms(1) t have "treg_ok s t (workers s ! t)"
    "lock_ok holds_decre decreLock s t (workers s ! t)"
    by (simp_all add: p2_inv_def each_worker_def)
  with th assms(3) have "wpc (workers s ! t) = W_DecWrite
            \<and> decreLock s = Held (Worker t) \<and> threads s' = threads s - 1"
    by (cases "wpc (workers s ! t)")
       (auto simp: thread_step_def jump_def put_worker_def Let_def treg_ok_def lock_ok_def
             split: if_splits)
  with A_Thread show ?thesis by simp
next
  case (A_Signal t u)
  with assms(2,3) show ?thesis by (auto simp: exec_def jump_frame split: if_splits)
next
  case (A_Spurious u)
  with assms(2,3) show ?thesis by (auto simp: exec_def jump_frame split: if_splits)
qed

lemma blocked_threads:
  assumes "\<not> spurious cfg" "reachable cfg s" "start s = 1"
  shows "threads s = max 0 (num_threads s)"
proof -
  from assms(2) have i: "p2_inv s" by (rule reachable_inv)
  from i assms(3) have st: "started (mpc s)" by (simp add: started_start)
  from blocked_reachable[OF assms(1,2)] have e: "each_worker before_wake s" by simp
  have "live (workers s ! t) = 1" if "t < length (workers s)" for t
  proof -
    from e that have "\<not> after_wait (wpc (workers s ! t))"
      by (simp add: each_worker_def before_wake_def)
    then have "\<not> departed (wpc (workers s ! t))" by (cases "wpc (workers s ! t)") auto
    then show ?thesis by (simp add: live_def)
  qed
  then have "sum_list (map live (workers s)) = int (length (workers s)) * 1"
    by (rule sum_list_const)
  with i st show ?thesis
    using started_length[OF st]
    by (simp add: p2_inv_def threads_ok_def length_ok_def started_pending)
qed

text \<open>
  Claim C3. The live-worker count is never negative. It changes only by the write of
  \<^verbatim>\<open>state.threads++\<close> in \<^verbatim>\<open>main\<close>, which holds \<^verbatim>\<open>threadLock\<close>, and by the write of
  \<^verbatim>\<open>state->threads--\<close> in a worker, which holds \<^verbatim>\<open>decreLock\<close>. Once it is 0 after the start
  it stays 0, and then every worker is past its decrement: it comes back to 0 at most
  once. But it need not come back to 0 at all: when no wakeup is spurious and there is at
  least one worker, the count stays at \<^verbatim>\<open>num_threads\<close> for ever after the start.
\<close>

theorem live_count:
  assumes "reachable cfg s" "exec cfg a s = Some s'"
  shows "0 \<le> threads s
       \<and> (threads s' \<noteq> threads s \<longrightarrow>
            (a = A_Main \<and> mpc s = M_IncWrite \<and> threadLock s = Held Coordinator
               \<and> threads s' = threads s + 1)
          \<or> (\<exists>t. a = A_Thread t \<and> wpc (workers s ! t) = W_DecWrite
               \<and> decreLock s = Held (Worker t) \<and> threads s' = threads s - 1))
       \<and> (start s = 1 \<and> threads s = 0 \<longrightarrow> threads s' = 0)
       \<and> (start s = 1 \<and> threads s = 0 \<longrightarrow> (\<forall>w \<in> set (workers s). departed (wpc w)))
       \<and> (\<not> spurious cfg \<and> start s = 1 \<and> 1 \<le> num_threads s \<longrightarrow>
            threads s = num_threads s \<and> threads s' = num_threads s)"
proof -
  from assms(1) have i: "p2_inv s" by (rule reachable_inv)
  from assms have r': "reachable cfg s'" by (rule reach_step)
  have z: "departed (wpc w)" if "start s = 1" "threads s = 0" "w \<in> set (workers s)" for w
  proof -
    from that(3) obtain t where t: "t < length (workers s)" "w = workers s ! t"
      by (auto simp: in_set_conv_nth)
    from i that(1) have "started (mpc s)" by (simp add: started_start)
    from all_departed[OF i this that(2) t(1)] t(2) show ?thesis by simp
  qed
  have k: "threads s' = 0" if s: "start s = 1" and th: "threads s = 0"
  proof (rule ccontr)
    assume "threads s' \<noteq> 0"
    with th have "threads s' \<noteq> threads s" by simp
    from threads_change[OF i assms(2) this] show False
    proof
      assume "a = A_Main \<and> mpc s = M_IncWrite \<and> threadLock s = Held Coordinator
               \<and> threads s' = threads s + 1"
      with i s show False by (simp add: started_start)
    next
      assume "\<exists>t. a = A_Thread t \<and> wpc (workers s ! t) = W_DecWrite
               \<and> decreLock s = Held (Worker t) \<and> threads s' = threads s - 1"
      then obtain t where t: "a = A_Thread t" "wpc (workers s ! t) = W_DecWrite" by blast
      with assms(2) have "t < length (workers s)" by (auto simp: exec_def split: if_splits)
      then have "workers s ! t \<in> set (workers s)" by simp
      from z[OF s th this] t(2) show False by simp
    qed
  qed
  have b: "threads s = num_threads s \<and> threads s' = num_threads s"
    if "\<not> spurious cfg" "start s = 1" "1 \<le> num_threads s"
  proof -
    from blocked_threads[OF that(1) assms(1) that(2)] that(3)
    have 1: "threads s = num_threads s" by simp
    from start_stays[OF i assms(2) that(2)] have s': "start s' = 1" .
    from exec_frame[OF assms(2)] have n: "a \<noteq> A_Main \<Longrightarrow> num_threads s' = num_threads s"
      by simp
    have "num_threads s' = num_threads s"
    proof (cases "a = A_Main")
      case False
      with n show ?thesis by simp
    next
      case True
      with assms(2) have m: "main_step cfg s = Some s'" by (simp add: exec_def)
      from i that(2) have "started (mpc s)" by (simp add: started_start)
      with m show ?thesis
        by (cases "mpc s") (auto simp: main_step_def goto_def split: if_splits)
    qed
    with blocked_threads[OF that(1) r' s'] that(3) 1 show ?thesis by simp
  qed
  from threads_nonneg[OF i] threads_change[OF i assms(2)] k z b show ?thesis by blast
qed

theorem live_count_witness:
  "reachable cfg_one st_blocked \<and> exec cfg_one A_Main st_blocked = Some st_stuck
     \<and> \<not> spurious cfg_one \<and> start st_blocked = 1 \<and> 1 \<le> num_threads st_blocked
     \<and> threads st_blocked = 1 \<and> threads st_stuck = 1"
  using live_count[OF reach_blocked exec_stuck] reach_blocked exec_stuck
  by (simp add: st_blocked_def st_stuck_def cfg_one_def)

section \<open>No worker\<close>

lemma run_snoc:
  "run cfg (as @ [a]) s = (case run cfg as s of None \<Rightarrow> None | Some s' \<Rightarrow> exec cfg a s')"
  by (induction as arbitrary: s) (auto split: option.splits)

lemma zero_run:
  assumes "parse_threads cfg = Some 0" "parse_loops cfg = Some l" "init_fails cfg = []"
  shows "run cfg (replicate 14 A_Main) init_state = Some (zero_final cfg l)"
  using assms
  by (simp add: eval_nat_numeral exec_def main_step_def init_step_def goto_def init_state_def
        zero_final_def)

lemma zero_exec:
  assumes "parse_threads cfg = Some 0"
    "reachable cfg s" "workers s = [] \<and> num_threads s = 0" "exec cfg a s = Some s'"
  shows "a = A_Main \<and> workers s' = [] \<and> num_threads s' = 0"
proof -
  from assms(3,4) have a: "a = A_Main" by (cases a) (auto simp: exec_def)
  with assms(4) have m: "main_step cfg s = Some s'" by (simp add: exec_def)
  from assms(2) have "p2_inv s" by (rule reachable_inv)
  then have "test_ok s" by (simp add: p2_inv_def)
  with assms(3) have nc: "mpc s \<noteq> M_Create" by (auto simp: test_ok_def)
  with main_step_workers[OF m] assms(3) have w: "workers s' = []" by simp
  from m assms(1,3) have "num_threads s' = 0"
    by (cases "mpc s")
       (auto simp: main_step_def goto_def init_step_def split: if_splits option.splits)
  with a w show ?thesis by simp
qed

lemma zero_reachable:
  assumes "parse_threads cfg = Some 0" "parse_loops cfg = Some l" "init_fails cfg = []"
    "reachable cfg s"
  shows "workers s = [] \<and> num_threads s = 0
       \<and> (\<exists>k \<le> 14. run cfg (replicate k A_Main) init_state = Some s)"
  using assms(4)
proof (induction rule: reachable.induct)
  case reach_init
  have "run cfg (replicate 0 A_Main) init_state = Some init_state" by simp
  then show ?case by (auto simp: init_state_def)
next
  case (reach_step s a s')
  from reach_step.IH obtain k where k: "k \<le> 14"
    "run cfg (replicate k A_Main) init_state = Some s" by blast
  from zero_exec[OF assms(1) reach_step.hyps(1) _ reach_step.hyps(2)] reach_step.IH
  have z: "a = A_Main" "workers s' = []" "num_threads s' = 0" by simp_all
  have "k \<noteq> 14"
  proof
    assume "k = 14"
    with k(2) zero_run[OF assms(1-3)] have "s = zero_final cfg l" by simp
    with reach_step.hyps(2) z(1) show False
      by (simp add: exec_def main_step_def zero_final_def)
  qed
  with k(1) have "Suc k \<le> 14" by simp
  moreover have "run cfg (replicate (Suc k) A_Main) init_state = Some s'"
  proof -
    have "replicate (Suc k) A_Main = replicate k A_Main @ [A_Main]"
      by (simp add: replicate_append_same)
    then show ?thesis using k(2) reach_step.hyps(2) z(1) by (simp only: run_snoc) simp
  qed
  ultimately show ?case using z by blast
qed

text \<open>
  Claim C10. With a worker count of 0 (and every mutex initialised) the program has one
  run: fourteen steps of \<^verbatim>\<open>main\<close>, none of them blocked, to the return of 0. No worker is
  ever created, and the result line reports the counter 0 and the expected value 0.
\<close>

theorem zero_workers:
  assumes "parse_threads cfg = Some 0" "parse_loops cfg = Some l" "init_fails cfg = []"
  shows "run cfg (replicate 14 A_Main) init_state = Some (zero_final cfg l)
       \<and> mpc (zero_final cfg l) = M_Exit 0 \<and> printed (zero_final cfg l) = Some (0, 0)
       \<and> counter (zero_final cfg l) = 0 \<and> num_loops (zero_final cfg l) * num_threads (zero_final cfg l) = 0
       \<and> (\<forall>s. reachable cfg s \<longrightarrow>
             workers s = [] \<and> (\<exists>k \<le> 14. run cfg (replicate k A_Main) init_state = Some s))"
  using zero_run[OF assms] zero_reachable[OF assms] by (simp add: zero_final_def)

theorem zero_workers_witness:
  "parse_threads cfg_zero = Some 0 \<and> parse_loops cfg_zero = Some 10000000
     \<and> init_fails cfg_zero = []
     \<and> run cfg_zero (replicate 14 A_Main) init_state = Some (zero_final cfg_zero 10000000)
     \<and> printed (zero_final cfg_zero 10000000) = Some (0, 0)"
proof -
  have p: "parse_threads cfg_zero = Some 0" "parse_loops cfg_zero = Some 10000000"
    "init_fails cfg_zero = []" by code_simp+
  from zero_workers[OF p] p show ?thesis by simp
qed

section \<open>The exit status\<close>

lemma run_fail: "run cfg_fail (replicate 3 A_Main) init_state = Some st_fail"
  by code_simp

lemma reach_fail: "reachable cfg_fail st_fail"
  by (rule run_reachable[OF reach_init run_fail])

lemma init_ok_main:
  assumes "init_ok cfg s" "main_step cfg s = Some s'"
  shows "init_ok cfg s'"
  using assms
  by (cases "mpc s")
     (auto simp: main_step_def goto_def init_step_def init_ok_def first_failure_def
           split: if_splits option.splits)

lemma init_ok_reachable: "reachable cfg s \<Longrightarrow> init_ok cfg s"
proof (induction rule: reachable.induct)
  case reach_init
  show ?case by (simp add: init_ok_def init_state_def)
next
  case (reach_step s a s')
  show ?case
  proof (cases "a = A_Main")
    case True
    with reach_step show ?thesis by (simp add: exec_def init_ok_main)
  next
    case False
    from exec_frame[OF reach_step.hyps(2) False]
    have "mpc s' = mpc s" "complaint s' = complaint s" by simp_all
    with reach_step.IH show ?thesis unfolding init_ok_def by auto
  qed
qed

lemma all_locks: "\<forall>l \<in> set [CountLock, DecreLock, MainLock, ThreadLock]. l \<notin> set ls \<Longrightarrow> ls = []"
proof (cases ls)
  case Nil
  then show ?thesis by simp
next
  case (Cons l ls')
  assume "\<forall>l \<in> set [CountLock, DecreLock, MainLock, ThreadLock]. l \<notin> set ls"
  with Cons show ?thesis by (cases l) auto
qed

lemma past_init:
  assumes "init_ok cfg s" "init_fails cfg \<noteq> []"
  shows "mpc s \<in> {M_InitCount, M_InitDecre, M_InitMain, M_InitThread, M_Exit (- 1)}"
proof (rule ccontr)
  assume n: "mpc s \<notin> {M_InitCount, M_InitDecre, M_InitMain, M_InitThread, M_Exit (- 1)}"
  have "inits_done (mpc s) = [CountLock, DecreLock, MainLock, ThreadLock]"
  proof (cases "mpc s")
    case (M_Exit v)
    with assms(1) n show ?thesis by (auto simp: init_ok_def)
  qed (use n in auto)
  with assms(1) have "init_fails cfg = []" by (intro all_locks) (simp add: init_ok_def)
  with assms(2) show False by simp
qed

lemma blocked_no_exit:
  assumes "\<not> spurious cfg" "reachable cfg s" "1 \<le> num_threads s"
  shows "mpc s \<noteq> M_Exit v"
proof
  assume e: "mpc s = M_Exit v"
  from assms(2) have i: "p2_inv s" by (rule reachable_inv)
  show False
  proof (cases "v = 0")
    case True
    with e i have "start s = 1" "threads s = 0" by (simp_all add: started_start p2_inv_def fin_ok_def)
    with blocked_threads[OF assms(1,2)] assms(3) show False by simp
  next
    case False
    from assms(2) have "num_threads s = 0 \<or> \<not> pre_spawn (mpc s) \<or> mpc s = M_LockThread"
    proof (induction rule: reachable.induct)
      case reach_init
      show ?case by (simp add: init_state_def)
    next
      case (reach_step s a s')
      show ?case
      proof (cases "a = A_Main")
        case True
        with reach_step.hyps(2) have "main_step cfg s = Some s'" by (simp add: exec_def)
        with reach_step.IH show ?thesis
          by (cases "mpc s")
             (auto simp: main_step_def goto_def init_step_def split: if_splits option.splits)
      next
        case False
        from exec_frame[OF reach_step.hyps(2) False] reach_step.IH show ?thesis by simp
      qed
    qed
    with e False assms(3) show False by simp
  qed
qed

text \<open>
  Claim C8. When \<^verbatim>\<open>main\<close> has returned, its value is not 0 exactly when the initialisation
  of a mutex fails; then the value is - 1, returned before any worker exists, with the
  message of the first failure and without a result line, and the run never gets past
  the four initialisations. When the value is
  0, the result line has been printed. But \<^verbatim>\<open>main\<close> need not return: when no wakeup is
  spurious and there is at least one worker, it never does.
\<close>

theorem exit_status:
  assumes "reachable cfg s"
  shows "(\<forall>v. mpc s = M_Exit v \<longrightarrow>
             (v \<noteq> 0 \<longleftrightarrow> init_fails cfg \<noteq> [])
           \<and> (v \<noteq> 0 \<longrightarrow> v = - 1 \<and> workers s = [] \<and> printed s = None
                \<and> first_failure cfg \<noteq> None
                \<and> complaint s = map_option init_message (first_failure cfg))
           \<and> (v = 0 \<longrightarrow> printed s = Some (counter s, num_loops s * num_threads s)))
       \<and> (init_fails cfg \<noteq> [] \<longrightarrow>
             mpc s \<in> {M_InitCount, M_InitDecre, M_InitMain, M_InitThread, M_Exit (- 1)})
       \<and> (\<not> spurious cfg \<and> 1 \<le> num_threads s \<longrightarrow> (\<forall>v. mpc s \<noteq> M_Exit v))"
proof -
  from assms have i: "p2_inv s" by (rule reachable_inv)
  from assms have o: "init_ok cfg s" by (rule init_ok_reachable)
  have 1: "(v \<noteq> 0 \<longleftrightarrow> init_fails cfg \<noteq> [])
           \<and> (v \<noteq> 0 \<longrightarrow> v = - 1 \<and> workers s = [] \<and> printed s = None
                \<and> first_failure cfg \<noteq> None
                \<and> complaint s = map_option init_message (first_failure cfg))
           \<and> (v = 0 \<longrightarrow> printed s = Some (counter s, num_loops s * num_threads s))"
    if e: "mpc s = M_Exit v" for v
  proof (cases "v = 0")
    case True
    with e o have "init_fails cfg = []" by (intro all_locks) (simp add: init_ok_def)
    moreover from i e True have "printed s = Some (counter s, num_loops s * num_threads s)"
      by (simp add: p2_inv_def printed_ok_def)
    ultimately show ?thesis using True by simp
  next
    case False
    with e o have "v = - 1" "init_fails cfg \<noteq> []" "first_failure cfg \<noteq> None"
      "complaint s = map_option init_message (first_failure cfg)"
      by (auto simp: init_ok_def)
    moreover from i e False have "fresh s" by (simp add: p2_inv_def fresh_ok_def)
    ultimately show ?thesis using False by (simp add: fresh_def)
  qed
  from 1 past_init[OF o] blocked_no_exit[OF _ assms] show ?thesis by blast
qed

theorem exit_status_witness:
  "reachable cfg_fail st_fail \<and> mpc st_fail = M_Exit (- 1) \<and> init_fails cfg_fail \<noteq> []
     \<and> workers st_fail = [] \<and> printed st_fail = None
     \<and> first_failure cfg_fail = Some MainLock
     \<and> complaint st_fail = Some (''mainLock mutex initialization failed'' @ [CHR 0x0A])
     \<and> reachable cfg_one st_blocked \<and> \<not> spurious cfg_one \<and> 1 \<le> num_threads st_blocked
     \<and> mpc st_blocked \<noteq> M_Exit 0"
proof -
  have f: "first_failure cfg_fail = Some MainLock" by code_simp
  from exit_status[OF reach_fail] exit_status[OF reach_blocked] reach_fail reach_blocked f
  show ?thesis
    by (simp add: st_fail_def cfg_fail_def init_state_def st_blocked_def cfg_one_def)
qed

section \<open>The arguments\<close>

lemma digit_char_props:
  "k < 10 \<Longrightarrow> isdigit (digit_char k) \<and> digit_val (digit_char k) = int k"
  by (simp add: isdigit_def digit_val_def digit_char_def)

lemma dec_digits: "list_all isdigit (dec n)"
proof (induction n rule: dec.induct)
  case (1 n)
  show ?case
  proof (cases "n < 10")
    case True
    then show ?thesis by (simp add: dec.simps[of n] digit_char_props)
  next
    case False
    with 1 show ?thesis by (simp add: dec.simps[of n] digit_char_props)
  qed
qed

lemma dec_nonempty: "dec n \<noteq> []"
  by (subst dec.simps) simp

lemma digits_acc_append:
  "list_all isdigit xs \<Longrightarrow> digits_acc acc (xs @ ys) = digits_acc (digits_acc acc xs) ys"
  by (induction xs arbitrary: acc) auto

lemma digits_acc_dec: "digits_acc acc (dec n) = acc * 10 ^ length (dec n) + int n"
proof (induction n arbitrary: acc rule: dec.induct)
  case (1 n)
  show ?case
  proof (cases "n < 10")
    case True
    then show ?thesis by (simp add: dec.simps[of n] digit_char_props)
  next
    case False
    have m: "n mod 10 < 10" by simp
    have "digits_acc acc (dec n) =
          digits_acc (digits_acc acc (dec (n div 10))) [digit_char (n mod 10)]"
      using False by (simp add: dec.simps[of n] digits_acc_append dec_digits)
    also have "\<dots> = 10 * (acc * 10 ^ length (dec (n div 10)) + int (n div 10)) + int (n mod 10)"
      using False 1[of acc] digit_char_props[OF m] by simp
    also have "\<dots> = acc * 10 ^ length (dec n) + int n"
      using False by (simp add: dec.simps[of n] algebra_simps zmod_int zdiv_int) 
    finally show ?thesis .
  qed
qed


lemma digit_not_space: "isdigit c \<Longrightarrow> \<not> isspace c \<and> c \<noteq> CHR ''-'' \<and> c \<noteq> CHR ''+''"
  by (auto simp: isdigit_def isspace_def)

lemma dec_head: "\<exists>c cs. dec n = c # cs \<and> isdigit c"
proof -
  obtain c cs where d: "dec n = c # cs" using dec_nonempty[of n] by (cases "dec n") auto
  with dec_digits[of n] show ?thesis by simp
qed

lemma atoi_fmt_ld:
  assumes "INT_MIN \<le> n" "n \<le> INT_MAX"
  shows "atoi (fmt_ld n) = Some n"
proof (cases "n < 0")
  case True
  from digits_acc_dec[of 0 "nat (- n)"] True have "digits_acc 0 (dec (nat (- n))) = - n" by simp
  with True assms show ?thesis by (simp add: atoi_def fmt_ld_def isspace_def)
next
  case False
  obtain c cs where d: "dec (nat n) = c # cs" "isdigit c" using dec_head by blast
  from digits_acc_dec[of 0 "nat n"] False have "digits_acc 0 (dec (nat n)) = n" by simp
  with False assms d digit_not_space[OF d(2)] show ?thesis
    by (simp add: atoi_def fmt_ld_def)
qed

lemma atoi_no_number:
  assumes "str = [] \<or> \<not> (isspace (hd str) \<or> isdigit (hd str)
              \<or> hd str = CHR ''-'' \<or> hd str = CHR ''+'')"
  shows "atoi str = Some 0"
  using assms by (cases str) (auto simp: atoi_def INT_MIN_def INT_MAX_def)

text \<open>
  Claim C7, as amended. With no argument the worker count is 2 and the loops per worker
  are 10,000,000; with one argument the loops are 10,000,000. An argument that is present
  goes through \<^verbatim>\<open>atoi\<close>: the decimal writing of a number that an \<^verbatim>\<open>int\<close> holds gives that
  number, and a string that does not begin with white space, a sign or a digit gives 0,
  not the default.
\<close>

theorem parse_arguments:
  "(length (argv cfg) \<le> 1 \<longrightarrow> parse_threads cfg = Some 2 \<and> parse_loops cfg = Some 10000000)
 \<and> (length (argv cfg) = 2 \<longrightarrow>
        parse_threads cfg = atoi (argv cfg ! 1) \<and> parse_loops cfg = Some 10000000)
 \<and> (3 \<le> length (argv cfg) \<longrightarrow>
        parse_threads cfg = atoi (argv cfg ! 1) \<and> parse_loops cfg = atoi (argv cfg ! 2))
 \<and> (\<forall>n. INT_MIN \<le> n \<and> n \<le> INT_MAX \<longrightarrow> atoi (fmt_ld n) = Some n)
 \<and> (\<forall>str. str = [] \<or> \<not> (isspace (hd str) \<or> isdigit (hd str)
              \<or> hd str = CHR ''-'' \<or> hd str = CHR ''+'') \<longrightarrow> atoi str = Some 0)"
  using atoi_fmt_ld atoi_no_number
  by (simp add: parse_threads_def parse_loops_def argc_def THREADS_def LOOPS_def)

theorem parse_arguments_witness:
  "3 \<le> length (argv cfg_two) \<and> parse_threads cfg_two = atoi (argv cfg_two ! 1)
     \<and> parse_loops cfg_two = atoi (argv cfg_two ! 2)
     \<and> INT_MIN \<le> 2 \<and> 2 \<le> INT_MAX \<and> fmt_ld 2 = ''2'' \<and> atoi (fmt_ld 2) = Some 2
     \<and> parse_threads cfg_two = Some 2"
proof -
  have w: "3 \<le> length (argv cfg_two)" "INT_MIN \<le> 2" "2 \<le> INT_MAX" "fmt_ld 2 = ''2''"
    "atoi ''2'' = Some 2" "argv cfg_two ! 1 = ''2''"
    by code_simp+
  from parse_arguments[of cfg_two] w show ?thesis by simp
qed

theorem parse_arguments_counterexample:
  "parse_threads cfg_words = Some 0 \<and> Some 0 \<noteq> Some THREADS
     \<and> parse_loops cfg_words = Some 0 \<and> Some 0 \<noteq> Some LOOPS"
  by code_simp

section \<open>The result line\<close>

lemma thread_step_clocks:
  "thread_step t s = Some s' \<Longrightarrow>
     start_time s' = start_time s \<and> startc s' = startc s \<and> line s' = line s"
  by (cases "wpc (workers s ! t)")
     (auto simp: thread_step_def jump_def put_worker_def Let_def split: if_splits)

lemma jump_clocks:
  "start_time (jump u p s) = start_time s" "startc (jump u p s) = startc s"
  "line (jump u p s) = line s"
  by (simp_all add: jump_def put_worker_def)

lemma out_ok_main:
  assumes "p2_inv s" "out_ok cfg s" "main_step cfg s = Some s'"
  shows "out_ok cfg s'"
proof -
  from assms(1) have "printed_ok s" by (simp add: p2_inv_def)
  with assms(2,3) show ?thesis
    by (cases "mpc s")
       (auto simp: main_step_def goto_def init_step_def out_ok_def printed_ok_def run_times_def
          split: if_splits option.splits)
qed

lemma out_ok_reachable: "reachable cfg s \<Longrightarrow> out_ok cfg s"
proof (induction rule: reachable.induct)
  case reach_init
  show ?case by (simp add: out_ok_def init_state_def)
next
  case (reach_step s a s')
  from reach_step(1) have i: "p2_inv s" by (rule reachable_inv)
  show ?case
  proof (cases a)
    case A_Main
    with reach_step(2) have "main_step cfg s = Some s'" by (simp add: exec_def)
    with i reach_step(3) show ?thesis by (rule out_ok_main)
  next
    case (A_Thread t)
    with reach_step(2) have "thread_step t s = Some s'" by (auto simp: exec_def split: if_splits)
    from thread_step_frame[OF this] thread_step_clocks[OF this] reach_step(3) show ?thesis
      by (simp add: out_ok_def)
  next
    case (A_Signal t u)
    with reach_step(2,3) show ?thesis
      by (auto simp: exec_def out_ok_def jump_frame jump_clocks split: if_splits)
  next
    case (A_Spurious u)
    with reach_step(2,3) show ?thesis
      by (auto simp: exec_def out_ok_def jump_frame jump_clocks split: if_splits)
  qed
qed

lemma line_change:
  assumes "exec cfg a s = Some s'" "line s' \<noteq> line s"
  shows "a = A_Main \<and> mpc s = M_Print"
proof (cases a)
  case A_Main
  with assms(1) have "main_step cfg s = Some s'" by (simp add: exec_def)
  with assms(2) A_Main show ?thesis
    by (cases "mpc s")
       (auto simp: main_step_def goto_def init_step_def split: if_splits option.splits)
next
  case (A_Thread t)
  with assms(1) have "thread_step t s = Some s'" by (auto simp: exec_def split: if_splits)
  from thread_step_clocks[OF this] assms(2) show ?thesis by simp
next
  case (A_Signal t u)
  with assms show ?thesis by (auto simp: exec_def jump_clocks split: if_splits)
next
  case (A_Spurious u)
  with assms show ?thesis by (auto simp: exec_def jump_clocks split: if_splits)
qed

lemma dec_length: "0 < k \<Longrightarrow> n < 10 ^ k \<Longrightarrow> length (dec n) \<le> k"
proof (induction n arbitrary: k rule: dec.induct)
  case (1 n)
  show ?case
  proof (cases "n < 10")
    case True
    with 1(2) show ?thesis by (simp add: dec.simps[of n])
  next
    case False
    from 1(2) obtain j where k: "k = Suc j" by (cases k) auto
    with False 1(3) have "0 < j"
      by (cases j) auto
    moreover from k 1(3) have "n div 10 < 10 ^ j"
      by (simp add: less_mult_imp_div_less mult.commute)
    ultimately have "length (dec (n div 10)) \<le> j" using 1(1)[OF False] by simp
    with False k show ?thesis by (simp add: dec.simps[of n])
  qed
qed

lemma dec_length_lower: "10 ^ k \<le> n \<Longrightarrow> k < length (dec n)"
proof (induction n arbitrary: k rule: dec.induct)
  case (1 n)
  show ?case
  proof (cases k)
    case 0
    then show ?thesis by (simp add: dec.simps[of n])
  next
    case (Suc j)
    from 1(2) Suc have a: "10 * 10 ^ j \<le> n" by simp
    have b: "(10::nat) \<le> 10 * 10 ^ j" by simp
    from a b have f: "\<not> n < 10" by linarith
    from 1(2) Suc have "10 ^ j \<le> n div 10" by (simp add: less_eq_div_iff_mult_less_eq)
    from 1(1)[OF f this] f Suc show ?thesis by (simp add: dec.simps[of n])
  qed
qed

lemma digits_acc_zeros: "digits_acc 0 (replicate m CHR ''0'' @ ys) = digits_acc 0 ys"
  by (induction m) (simp_all add: isdigit_def digit_val_def)

lemma read_fmt_ld: "read_ld (fmt_ld n) = n"
proof -
  obtain c cs where d: "dec (nat \<bar>n\<bar>) = c # cs" "isdigit c" using dec_head by blast
  from d(2) have "c \<noteq> CHR ''-''" by (simp add: digit_not_space)
  with d digits_acc_dec[of 0 "nat \<bar>n\<bar>"] show ?thesis
    by (cases "n < 0") (auto simp: read_ld_def fmt_ld_def abs_if)
qed

lemma read_fmt_06ld: "read_ld (fmt_06ld n) = n"
proof (cases "n < 0")
  case True
  with digits_acc_dec[of 0 "nat \<bar>n\<bar>"] show ?thesis
    by (simp add: read_ld_def fmt_06ld_def Let_def digits_acc_zeros)
next
  case False
  obtain c cs where d: "dec (nat \<bar>n\<bar>) = c # cs" "isdigit c" using dec_head by blast
  have z: "isdigit CHR ''0''" by (simp add: isdigit_def)
  have "\<exists>c cs. fmt_06ld n = c # cs \<and> isdigit c"
  proof (cases "6 - length (dec (nat \<bar>n\<bar>))")
    case 0
    with False d show ?thesis by (simp add: fmt_06ld_def Let_def)
  next
    case (Suc m)
    with False z show ?thesis by (simp add: fmt_06ld_def Let_def)
  qed
  then obtain c' cs' where f: "fmt_06ld n = c' # cs'" "isdigit c'" by blast
  from f(2) have "c' \<noteq> CHR ''-''" by (simp add: digit_not_space)
  with f have "read_ld (fmt_06ld n) = digits_acc 0 (fmt_06ld n)" by (simp add: read_ld_def)
  also from False digits_acc_dec[of 0 "nat \<bar>n\<bar>"] have "\<dots> = n"
    by (simp add: fmt_06ld_def Let_def digits_acc_zeros)
  finally show ?thesis .
qed

lemma fmt_06ld_length:
  assumes "\<bar>r\<bar> < 1000000"
  shows "length (fmt_06ld r) = (if r \<le> - 100000 then 7 else 6)"
proof -
  from assms have "nat \<bar>r\<bar> < 10 ^ 6" by simp
  then have u: "length (dec (nat \<bar>r\<bar>)) \<le> 6" by (intro dec_length) simp_all
  show ?thesis
  proof (cases "r \<le> - 100000")
    case True
    then have "10 ^ 5 \<le> nat \<bar>r\<bar>" by simp
    then have "5 < length (dec (nat \<bar>r\<bar>))" by (rule dec_length_lower)
    with u True show ?thesis by (simp add: fmt_06ld_def Let_def)
  next
    case False
    show ?thesis
    proof (cases "r < 0")
      case True
      with False have "nat \<bar>r\<bar> < 10 ^ 5" by simp
      then have "length (dec (nat \<bar>r\<bar>)) \<le> 5" by (intro dec_length) simp_all
      with True False show ?thesis by (simp add: fmt_06ld_def Let_def)
    next
      case f: False
      with u False show ?thesis by (simp add: fmt_06ld_def Let_def)
    qed
  qed
qed

lemma smod_bound: "\<bar>(d::int) smod 1000000\<bar> < 1000000"
  by (simp add: signed_modulo_int_def abs_mult abs_sgn_eq)

lemma sint_elapsed:
  "sint (elapsed t0 t1) = signed_take_bit 63 (micros t1 - micros t0)"
proof -
  have e: "elapsed t0 t1 = word_of_int (micros t1 - micros t0)"
    by (simp add: elapsed_def micros_def US_PER_S_def algebra_simps)
  show ?thesis unfolding e by (simp only: sint_sbintrunc') simp
qed

lemma sint_elapsed_cpu:
  "sint (elapsed_cpu c0 c1) = signed_take_bit 63 ((sint c1 - sint c0) * 1000000) sdiv 1000000"
proof -
  have w: "(c1 - c0) * of_int US_PER_S = (word_of_int ((sint c1 - sint c0) * 1000000) :: long)"
    by (simp add: US_PER_S_def algebra_simps)
  have e: "sint ((c1 - c0) * of_int US_PER_S :: long) = signed_take_bit 63 ((sint c1 - sint c0) * 1000000)"
    unfolding w by (simp only: sint_sbintrunc') simp
  let ?v = "signed_take_bit 63 ((sint c1 - sint c0) * 1000000) :: int"
  have b: "- (2 ^ 63) \<le> ?v \<and> ?v < 2 ^ 63"
    using signed_take_bit_int_greater_eq_minus_exp[of 63 "(sint c1 - sint c0) * 1000000"]
      signed_take_bit_int_less_exp[of 63 "(sint c1 - sint c0) * 1000000"] by simp
  have d: "\<bar>?v\<bar> div 1000000 \<le> \<bar>?v\<bar> div 2"
    using zdiv_mono2[of "\<bar>?v\<bar>" 2 1000000] by simp
  have a: "\<bar>?v sdiv 1000000\<bar> \<le> \<bar>?v\<bar> div 1000000"
    by (simp add: signed_divide_int_def abs_mult abs_sgn_eq)
  from b have "\<bar>?v\<bar> \<le> 9223372036854775808" by (simp add: abs_le_iff)
  then have "\<bar>?v\<bar> div 2 \<le> 4611686018427387904" by simp
  with d a have "\<bar>?v sdiv 1000000\<bar> \<le> 4611686018427387904" by linarith
  then have "- (2 ^ 63) \<le> ?v sdiv 1000000 \<and> ?v sdiv 1000000 < 2 ^ 63"
    by (simp add: abs_le_iff)
  then have "signed_take_bit 63 (?v sdiv 1000000) = ?v sdiv 1000000"
    by (intro signed_take_bit_int_eq_self) simp_all
  with e show ?thesis by (simp add: elapsed_cpu_def CLOCKS_PER_SEC_def sint_sbintrunc')
qed


lemma fmt_ld_length:
  assumes "\<bar>n\<bar> < 10 ^ 19"
  shows "length (fmt_ld n) \<le> 20"
proof -
  from assms have "nat \<bar>n\<bar> < 10 ^ 19" by simp
  then have "length (dec (nat \<bar>n\<bar>)) \<le> 19" by (intro dec_length) simp_all
  then show ?thesis by (simp add: fmt_ld_def abs_if split: if_splits)
qed

lemma sdiv_abs_le: "\<bar>(d::int) sdiv 1000000\<bar> \<le> \<bar>d\<bar>"
proof -
  have "\<bar>d\<bar> div 1000000 \<le> \<bar>d\<bar>" using zdiv_mono2[of "\<bar>d\<bar>" 1 1000000] by simp
  moreover have "\<bar>d sdiv 1000000\<bar> \<le> \<bar>d\<bar> div 1000000"
    by (simp add: signed_divide_int_def abs_mult abs_sgn_eq)
  ultimately show ?thesis by simp
qed

lemma sint_abs: "\<bar>sint (w :: long)\<bar> < 10 ^ 19"
proof -
  have "- (2 ^ 63) \<le> sint w" "sint w < 2 ^ 63"
    using sint_ge[of w] sint_lt[of w] by simp_all
  then show ?thesis by (simp add: abs_less_iff)
qed

lemma all_times_fits: "length (all_times t0 c0 t1 c1) < 1000"
proof -
  have a: "length (fmt_ld (sint w sdiv 1000000)) \<le> 20" for w :: long
    using sdiv_abs_le[of "sint w"] sint_abs[of w] by (intro fmt_ld_length) simp
  have b: "length (fmt_06ld (d smod 1000000)) \<le> 7" for d :: int
    using fmt_06ld_length[OF smod_bound[of d]] by (simp split: if_splits)
  from a[of "elapsed t0 t1"] a[of "elapsed_cpu c0 c1"]
    b[of "sint (elapsed t0 t1)"] b[of "sint (elapsed_cpu c0 c1)"]
  show ?thesis by (simp add: all_times_def Let_def US_PER_S_def)
qed

lemma sint_in_range: "long_range v \<Longrightarrow> signed_take_bit 63 v = v"
  by (intro signed_take_bit_int_eq_self) (simp_all add: long_range_def LONG_MIN_def LONG_MAX_def)

lemma sdiv_mult_self: "(x * 1000000) sdiv 1000000 = (x::int)"
  by (simp add: signed_divide_int_def sgn_mult abs_mult mult_sgn_abs)

lemma read_back:
  "read_ld (fmt_ld (d sdiv 1000000)) * 1000000 + read_ld (fmt_06ld (d smod 1000000)) = d"
  by (simp add: read_fmt_ld read_fmt_06ld sdiv_mult_smod_eq)

lemma run_times_text:
  "run_times cfg =
     fmt_ld (wall_us cfg sdiv 1000000) @ ''.'' @ fmt_06ld (wall_us cfg smod 1000000)
     @ ''s, cpu time ''
     @ fmt_ld (cpu_us cfg sdiv 1000000) @ ''.'' @ fmt_06ld (cpu_us cfg smod 1000000)"
  by (simp add: run_times_def all_times_def wall_us_def cpu_us_def US_PER_S_def Let_def)

text \<open>The run of \<^verbatim>\<open>./p2 2 2\<close> to its end, with the step that prints.\<close>

lemma exec_print:
  "exec cfg_two A_Main (st_done\<lparr>mpc := M_Print, printed := None, line := None\<rparr>)
     = Some (st_done\<lparr>mpc := M_DestroyMain\<rparr>)"
proof -
  have c: "fmt_ld 4 = ''4''" by (simp add: fmt_ld_def dec.simps) code_simp
  show ?thesis
    by (simp add: exec_def main_step_def st_done_def cfg_two_def times_two result_line_def c)
qed

lemma micros_two:
  "micros (time_finish cfg_two) - micros (time_start cfg_two) = 1000003"
  "sint (clock_finish cfg_two) - sint (clock_start cfg_two) = 1600000"
  by (simp_all add: cfg_two_def micros_def t_start_def t_finish_def)

text \<open>
  Claim C9. The result line is written by the one step of lines 181 to 183, which
  \<^verbatim>\<open>main\<close> takes only when the live-worker count is 0 and every worker is past its
  decrement; there is no line before, and after that step the line is there and stays. Its
  text is the counter (final: no worker is left to change it), the expected value
  \<^verbatim>\<open>num_loops * num_threads\<close>, and the text of \<^verbatim>\<open>all_times\<close> for the clock readings of the
  run. \<^verbatim>\<open>all_times\<close> writes the elapsed time and then the processor time as the seconds, a
  point and the microseconds, in less than the 1000 characters of its array: the two numbers, read back from the text, give \<^verbatim>\<open>delta\<close> (and
  \<^verbatim>\<open>delta_cpu\<close>) exactly, to the microsecond, and the microseconds take six characters
  (seven when they are - 100000 or less, which takes a clock that ran backwards).
  \<^verbatim>\<open>delta\<close> is the difference of the two readings of \<^verbatim>\<open>gettimeofday\<close> in microseconds, and
  \<^verbatim>\<open>delta_cpu\<close> the difference of the two readings of \<^verbatim>\<open>clock\<close>, when the \<^verbatim>\<open>long\<close>
  arithmetic of \<^verbatim>\<open>all_times\<close> does not overflow; in general they are what that arithmetic
  gives modulo \<open>2 ^ 64\<close>.
\<close>

theorem result_line_at_completion:
  assumes "reachable cfg s"
  shows "(mpc s = M_Print \<or> line s \<noteq> None \<longrightarrow>
            threads s = 0 \<and> (\<forall>w \<in> set (workers s). departed (wpc w)))
       \<and> (reported (mpc s) \<longrightarrow> line s \<noteq> None)
       \<and> (\<forall>ln. line s = Some ln \<longrightarrow>
            ln = result_line (counter s) (num_loops s * num_threads s) (run_times cfg)
          \<and> ln = fmt_ld (counter s) @ '' total count, expected ''
                  @ fmt_ld (num_loops s * num_threads s) @ '', time '' @ run_times cfg
                  @ ''s'' @ [CHR 0x0A])
       \<and> (\<forall>a s'. exec cfg a s = Some s' \<and> line s' \<noteq> line s \<longrightarrow>
            a = A_Main \<and> mpc s = M_Print
          \<and> line s' = Some (result_line (counter s) (num_loops s * num_threads s) (run_times cfg)))
       \<and> run_times cfg =
            fmt_ld (wall_us cfg sdiv 1000000) @ ''.'' @ fmt_06ld (wall_us cfg smod 1000000)
            @ ''s, cpu time ''
            @ fmt_ld (cpu_us cfg sdiv 1000000) @ ''.'' @ fmt_06ld (cpu_us cfg smod 1000000)
       \<and> length (run_times cfg) < 1000
       \<and> read_ld (fmt_ld (wall_us cfg sdiv 1000000)) * 1000000
            + read_ld (fmt_06ld (wall_us cfg smod 1000000)) = wall_us cfg
       \<and> read_ld (fmt_ld (cpu_us cfg sdiv 1000000)) * 1000000
            + read_ld (fmt_06ld (cpu_us cfg smod 1000000)) = cpu_us cfg
       \<and> length (fmt_06ld (wall_us cfg smod 1000000))
            = (if wall_us cfg smod 1000000 \<le> - 100000 then 7 else 6)
       \<and> length (fmt_06ld (cpu_us cfg smod 1000000))
            = (if cpu_us cfg smod 1000000 \<le> - 100000 then 7 else 6)
       \<and> wall_us cfg = signed_take_bit 63 (micros (time_finish cfg) - micros (time_start cfg))
       \<and> cpu_us cfg =
            signed_take_bit 63 ((sint (clock_finish cfg) - sint (clock_start cfg)) * 1000000)
              sdiv 1000000
       \<and> (long_range (micros (time_finish cfg) - micros (time_start cfg)) \<longrightarrow>
            wall_us cfg = micros (time_finish cfg) - micros (time_start cfg))
       \<and> (long_range ((sint (clock_finish cfg) - sint (clock_start cfg)) * 1000000) \<longrightarrow>
            cpu_us cfg = sint (clock_finish cfg) - sint (clock_start cfg))"
proof -
  from assms have i: "p2_inv s" by (rule reachable_inv)
  from assms have o: "out_ok cfg s" by (rule out_ok_reachable)
  from i have p: "printed_ok s" by (simp add: p2_inv_def)
  have f: "finished (mpc s)" if "mpc s = M_Print \<or> line s \<noteq> None"
    using that o p by (cases "mpc s") (auto simp: out_ok_def printed_ok_def split: if_splits)
  have 1: "threads s = 0 \<and> (\<forall>w \<in> set (workers s). departed (wpc w))"
    if h: "mpc s = M_Print \<or> line s \<noteq> None"
  proof -
    from f[OF h] i have "threads s = 0" by (simp add: p2_inv_def fin_ok_def)
    moreover have "departed (wpc w)" if "w \<in> set (workers s)" for w
    proof -
      from that obtain t where "t < length (workers s)" "w = workers s ! t"
        by (auto simp: in_set_conv_nth)
      with departed_when_finished[OF i f[OF h]] show ?thesis by simp
    qed
    ultimately show ?thesis by simp
  qed
  have 2: "line s \<noteq> None" if "reported (mpc s)"
    using that o p by (simp add: out_ok_def printed_ok_def)
  have 3: "ln = result_line (counter s) (num_loops s * num_threads s) (run_times cfg)
          \<and> ln = fmt_ld (counter s) @ '' total count, expected ''
                  @ fmt_ld (num_loops s * num_threads s) @ '', time '' @ run_times cfg
                  @ ''s'' @ [CHR 0x0A]" if "line s = Some ln" for ln
    using that o p by (auto simp: out_ok_def printed_ok_def result_line_def split: if_splits)
  have 4: "a = A_Main \<and> mpc s = M_Print
          \<and> line s' = Some (result_line (counter s) (num_loops s * num_threads s) (run_times cfg))"
    if h: "exec cfg a s = Some s' \<and> line s' \<noteq> line s" for a s'
  proof -
    from h line_change have m: "a = A_Main" "mpc s = M_Print" by blast+
    with h have "main_step cfg s = Some s'" by (simp add: exec_def)
    with m(2) o have "line s' = Some (result_line (counter s) (num_loops s * num_threads s) (run_times cfg))"
      by (auto simp: main_step_def out_ok_def run_times_def)
    with m show ?thesis by simp
  qed
  have 5: "wall_us cfg = micros (time_finish cfg) - micros (time_start cfg)"
    if "long_range (micros (time_finish cfg) - micros (time_start cfg))"
    using that by (simp add: wall_us_def sint_elapsed sint_in_range)
  have 6: "cpu_us cfg = sint (clock_finish cfg) - sint (clock_start cfg)"
    if "long_range ((sint (clock_finish cfg) - sint (clock_start cfg)) * 1000000)"
    using that by (simp only: cpu_us_def sint_elapsed_cpu sint_in_range sdiv_mult_self)
  have 7: "wall_us cfg = signed_take_bit 63 (micros (time_finish cfg) - micros (time_start cfg))"
    by (simp add: wall_us_def sint_elapsed)
  have 8: "cpu_us cfg =
            signed_take_bit 63 ((sint (clock_finish cfg) - sint (clock_start cfg)) * 1000000)
              sdiv 1000000"
    by (simp only: cpu_us_def sint_elapsed_cpu)
  have 9: "length (run_times cfg) < 1000" by (simp add: run_times_def all_times_fits)
  from 1 2 3 4 5 6 7 8 9 run_times_text[of cfg] read_back[of "wall_us cfg"] read_back[of "cpu_us cfg"]
    fmt_06ld_length[OF smod_bound[of "wall_us cfg"]] fmt_06ld_length[OF smod_bound[of "cpu_us cfg"]]
  show ?thesis by blast
qed


theorem result_line_at_completion_witness:
  "reachable cfg_two st_done \<and> reported (mpc st_done) \<and> threads st_done = 0
     \<and> counter st_done = 4 \<and> num_loops st_done * num_threads st_done = 4
     \<and> line st_done
         = Some (''4 total count, expected 4, time 1.000003s, cpu time 1.600000s'' @ [CHR 0x0A])
     \<and> result_line 4 4 (run_times cfg_two)
         = ''4 total count, expected 4, time 1.000003s, cpu time 1.600000s'' @ [CHR 0x0A]
     \<and> run_times cfg_two = ''1.000003s, cpu time 1.600000''
     \<and> long_range (micros (time_finish cfg_two) - micros (time_start cfg_two))
     \<and> long_range ((sint (clock_finish cfg_two) - sint (clock_start cfg_two)) * 1000000)
     \<and> wall_us cfg_two = 1000003 \<and> cpu_us cfg_two = 1600000
     \<and> reachable cfg_two (st_done\<lparr>mpc := M_Print, printed := None, line := None\<rparr>)
     \<and> exec cfg_two A_Main (st_done\<lparr>mpc := M_Print, printed := None, line := None\<rparr>)
         = Some (st_done\<lparr>mpc := M_DestroyMain\<rparr>)"
proof -
  have r: "reachable cfg_two (st_done\<lparr>mpc := M_Print, printed := None, line := None\<rparr>)"
    by (rule run_reachable[OF reach_init run_to_print])
  have t: "run_times cfg_two = ''1.000003s, cpu time 1.600000''"
    by (simp add: run_times_def cfg_two_def times_two)
  have l: "long_range (micros (time_finish cfg_two) - micros (time_start cfg_two))"
    "long_range ((sint (clock_finish cfg_two) - sint (clock_start cfg_two)) * 1000000)"
    by (simp_all add: micros_two long_range_def LONG_MIN_def LONG_MAX_def)
  from result_line_at_completion[OF reach_done] result_line_at_completion[OF r]
    reach_done r t l exec_print micros_two
  show ?thesis by (simp add: st_done_def)
qed

text \<open>Clocks that run backwards: a start at 7.5 s and a finish at 6 s.\<close>

lemma all_times_backwards:
  "all_times \<lparr>tv_sec = 7, tv_usec = 500000\<rparr> 0 \<lparr>tv_sec = 6, tv_usec = 0\<rparr> 0
     = ''-1.-500000s, cpu time 0.000000''"
proof -
  have e: "sint (elapsed \<lparr>tv_sec = 7, tv_usec = 500000\<rparr> \<lparr>tv_sec = 6, tv_usec = 0\<rparr>) = - 1500000"
    "sint (elapsed_cpu 0 0) = 0"
    by (simp_all add: elapsed_def elapsed_cpu_def US_PER_S_def)
  have c: "digit_char 0 = CHR ''0''" "digit_char (Suc 0) = CHR ''1''" "digit_char 5 = CHR ''5''"
    "replicate 5 CHR ''0'' = ''00000''"
    by code_simp+
  have d: "fmt_ld (- 1) = ''-1''" "fmt_06ld (- 500000) = ''-500000''" "fmt_ld 0 = ''0''"
    "fmt_06ld 0 = ''000000''"
    by (simp_all add: fmt_ld_def fmt_06ld_def dec.simps c)
  show ?thesis
    by (simp add: all_times_def e US_PER_S_def signed_divide_int_def signed_modulo_int_def d)
qed

section \<open>The guards a task holds\<close>

lemma destroy_eq_held [simp]: "destroy m = Held k \<longleftrightarrow> m = Held k"
  by (cases m) (simp_all add: destroy_def)

lemma destroy_not_free [simp]: "destroy m \<noteq> Free"
  by (cases m) (simp_all add: destroy_def)


lemma main_free_thread:
  assumes "owner_inv s" "t < length (workers s)" "thread_step t s = Some s'"
  shows "each_worker (free_ok holds_main mainLock) s' \<and> bound_ok mainLock s'"
proof -
  from assms(1) have e: "each_worker (free_ok holds_main mainLock) s" and b: "bound_ok mainLock s"
    by (simp_all add: owner_inv_def)
  from e assms(2) have lt: "free_ok holds_main mainLock s t (workers s ! t)" by (rule each_workerD)
  have "each_worker (free_ok holds_main mainLock) s'"
  proof (rule each_worker_step[OF e e thread_step_length[OF assms(3)] thread_step_others[OF assms(3)]])
    show "free_ok holds_main mainLock s' t (workers s' ! t)"
      using assms(3) assms(2) lt
      by (cases "wpc (workers s ! t)")
         (auto simp: thread_step_def jump_def put_worker_def Let_def free_ok_def split: if_splits)
  next
    fix u x assume "u \<noteq> t" "free_ok holds_main mainLock s u x"
    then show "free_ok holds_main mainLock s' u x"
      using assms(3)
      by (cases "wpc (workers s ! t)")
         (auto simp: thread_step_def jump_def put_worker_def Let_def free_ok_def split: if_splits)
  qed
  moreover have "bound_ok mainLock s'"
    using assms(3) assms(2) b
    by (cases "wpc (workers s ! t)")
       (auto simp: thread_step_def jump_def put_worker_def Let_def bound_ok_def split: if_splits)
  ultimately show ?thesis by simp
qed

lemma main_free_main:
  assumes "owner_inv s" "main_step cfg s = Some s'"
  shows "each_worker (free_ok holds_main mainLock) s' \<and> bound_ok mainLock s'"
proof -
  from assms(1) have e: "each_worker (free_ok holds_main mainLock) s" and b: "bound_ok mainLock s"
    by (simp_all add: owner_inv_def)
  have "each_worker (free_ok holds_main mainLock) s'"
  proof (rule each_worker_main[OF e e main_step_workers[OF assms(2)]])
    assume "mpc s = M_Create"
    with b show "free_ok holds_main mainLock s' (length (workers s)) new_worker"
      using assms(2) by (auto simp: main_step_def goto_def init_step_def free_ok_def bound_ok_def)
  next
    fix u x assume "free_ok holds_main mainLock s u x"
    then show "free_ok holds_main mainLock s' u x"
      using assms(2)
      by (cases "mpc s") (auto simp: main_step_def goto_def init_step_def free_ok_def split: if_splits option.splits)
  qed
  moreover have "bound_ok mainLock s'"
    using assms(2) b
    by (cases "mpc s")
       (auto simp: main_step_def goto_def init_step_def bound_ok_def less_Suc_eq split: if_splits option.splits)
  ultimately show ?thesis by simp
qed

lemma count_free_thread:
  assumes "owner_inv s" "t < length (workers s)" "thread_step t s = Some s'"
  shows "each_worker (free_ok holds_count countLock) s' \<and> bound_ok countLock s'"
proof -
  from assms(1) have e: "each_worker (free_ok holds_count countLock) s" and b: "bound_ok countLock s"
    by (simp_all add: owner_inv_def)
  from e assms(2) have lt: "free_ok holds_count countLock s t (workers s ! t)" by (rule each_workerD)
  have "each_worker (free_ok holds_count countLock) s'"
  proof (rule each_worker_step[OF e e thread_step_length[OF assms(3)] thread_step_others[OF assms(3)]])
    show "free_ok holds_count countLock s' t (workers s' ! t)"
      using assms(3) assms(2) lt
      by (cases "wpc (workers s ! t)")
         (auto simp: thread_step_def jump_def put_worker_def Let_def free_ok_def split: if_splits)
  next
    fix u x assume "u \<noteq> t" "free_ok holds_count countLock s u x"
    then show "free_ok holds_count countLock s' u x"
      using assms(3)
      by (cases "wpc (workers s ! t)")
         (auto simp: thread_step_def jump_def put_worker_def Let_def free_ok_def split: if_splits)
  qed
  moreover have "bound_ok countLock s'"
    using assms(3) assms(2) b
    by (cases "wpc (workers s ! t)")
       (auto simp: thread_step_def jump_def put_worker_def Let_def bound_ok_def split: if_splits)
  ultimately show ?thesis by simp
qed

lemma count_free_main:
  assumes "owner_inv s" "main_step cfg s = Some s'"
  shows "each_worker (free_ok holds_count countLock) s' \<and> bound_ok countLock s'"
proof -
  from assms(1) have e: "each_worker (free_ok holds_count countLock) s" and b: "bound_ok countLock s"
    by (simp_all add: owner_inv_def)
  have "each_worker (free_ok holds_count countLock) s'"
  proof (rule each_worker_main[OF e e main_step_workers[OF assms(2)]])
    assume "mpc s = M_Create"
    with b show "free_ok holds_count countLock s' (length (workers s)) new_worker"
      using assms(2) by (auto simp: main_step_def goto_def init_step_def free_ok_def bound_ok_def)
  next
    fix u x assume "free_ok holds_count countLock s u x"
    then show "free_ok holds_count countLock s' u x"
      using assms(2)
      by (cases "mpc s") (auto simp: main_step_def goto_def init_step_def free_ok_def split: if_splits option.splits)
  qed
  moreover have "bound_ok countLock s'"
    using assms(2) b
    by (cases "mpc s")
       (auto simp: main_step_def goto_def init_step_def bound_ok_def less_Suc_eq split: if_splits option.splits)
  ultimately show ?thesis by simp
qed

lemma decre_free_thread:
  assumes "owner_inv s" "t < length (workers s)" "thread_step t s = Some s'"
  shows "each_worker (free_ok holds_decre decreLock) s' \<and> bound_ok decreLock s'"
proof -
  from assms(1) have e: "each_worker (free_ok holds_decre decreLock) s" and b: "bound_ok decreLock s"
    by (simp_all add: owner_inv_def)
  from e assms(2) have lt: "free_ok holds_decre decreLock s t (workers s ! t)" by (rule each_workerD)
  have "each_worker (free_ok holds_decre decreLock) s'"
  proof (rule each_worker_step[OF e e thread_step_length[OF assms(3)] thread_step_others[OF assms(3)]])
    show "free_ok holds_decre decreLock s' t (workers s' ! t)"
      using assms(3) assms(2) lt
      by (cases "wpc (workers s ! t)")
         (auto simp: thread_step_def jump_def put_worker_def Let_def free_ok_def split: if_splits)
  next
    fix u x assume "u \<noteq> t" "free_ok holds_decre decreLock s u x"
    then show "free_ok holds_decre decreLock s' u x"
      using assms(3)
      by (cases "wpc (workers s ! t)")
         (auto simp: thread_step_def jump_def put_worker_def Let_def free_ok_def split: if_splits)
  qed
  moreover have "bound_ok decreLock s'"
    using assms(3) assms(2) b
    by (cases "wpc (workers s ! t)")
       (auto simp: thread_step_def jump_def put_worker_def Let_def bound_ok_def split: if_splits)
  ultimately show ?thesis by simp
qed

lemma decre_free_main:
  assumes "owner_inv s" "main_step cfg s = Some s'"
  shows "each_worker (free_ok holds_decre decreLock) s' \<and> bound_ok decreLock s'"
proof -
  from assms(1) have e: "each_worker (free_ok holds_decre decreLock) s" and b: "bound_ok decreLock s"
    by (simp_all add: owner_inv_def)
  have "each_worker (free_ok holds_decre decreLock) s'"
  proof (rule each_worker_main[OF e e main_step_workers[OF assms(2)]])
    assume "mpc s = M_Create"
    with b show "free_ok holds_decre decreLock s' (length (workers s)) new_worker"
      using assms(2) by (auto simp: main_step_def goto_def init_step_def free_ok_def bound_ok_def)
  next
    fix u x assume "free_ok holds_decre decreLock s u x"
    then show "free_ok holds_decre decreLock s' u x"
      using assms(2)
      by (cases "mpc s") (auto simp: main_step_def goto_def init_step_def free_ok_def split: if_splits option.splits)
  qed
  moreover have "bound_ok decreLock s'"
    using assms(2) b
    by (cases "mpc s")
       (auto simp: main_step_def goto_def init_step_def bound_ok_def less_Suc_eq split: if_splits option.splits)
  ultimately show ?thesis by simp
qed

lemma thread_free_thread:
  assumes "owner_inv s" "t < length (workers s)" "thread_step t s = Some s'"
  shows "each_worker (free_ok (\<lambda>p. \<not> early p) threadLock) s' \<and> bound_ok threadLock s'"
proof -
  from assms(1) have e: "each_worker (free_ok (\<lambda>p. \<not> early p) threadLock) s" and b: "bound_ok threadLock s"
    by (simp_all add: owner_inv_def)
  from e assms(2) have lt: "free_ok (\<lambda>p. \<not> early p) threadLock s t (workers s ! t)" by (rule each_workerD)
  have "each_worker (free_ok (\<lambda>p. \<not> early p) threadLock) s'"
  proof (rule each_worker_step[OF e e thread_step_length[OF assms(3)] thread_step_others[OF assms(3)]])
    show "free_ok (\<lambda>p. \<not> early p) threadLock s' t (workers s' ! t)"
      using assms(3) assms(2) lt
      by (cases "wpc (workers s ! t)")
         (auto simp: thread_step_def jump_def put_worker_def Let_def free_ok_def split: if_splits)
  next
    fix u x assume "u \<noteq> t" "free_ok (\<lambda>p. \<not> early p) threadLock s u x"
    then show "free_ok (\<lambda>p. \<not> early p) threadLock s' u x"
      using assms(3)
      by (cases "wpc (workers s ! t)")
         (auto simp: thread_step_def jump_def put_worker_def Let_def free_ok_def split: if_splits)
  qed
  moreover have "bound_ok threadLock s'"
    using assms(3) assms(2) b
    by (cases "wpc (workers s ! t)")
       (auto simp: thread_step_def jump_def put_worker_def Let_def bound_ok_def split: if_splits)
  ultimately show ?thesis by simp
qed

lemma thread_free_main:
  assumes "owner_inv s" "main_step cfg s = Some s'"
  shows "each_worker (free_ok (\<lambda>p. \<not> early p) threadLock) s' \<and> bound_ok threadLock s'"
proof -
  from assms(1) have e: "each_worker (free_ok (\<lambda>p. \<not> early p) threadLock) s" and b: "bound_ok threadLock s"
    by (simp_all add: owner_inv_def)
  have "each_worker (free_ok (\<lambda>p. \<not> early p) threadLock) s'"
  proof (rule each_worker_main[OF e e main_step_workers[OF assms(2)]])
    assume "mpc s = M_Create"
    with b show "free_ok (\<lambda>p. \<not> early p) threadLock s' (length (workers s)) new_worker"
      using assms(2) by (auto simp: main_step_def goto_def init_step_def free_ok_def bound_ok_def)
  next
    fix u x assume "free_ok (\<lambda>p. \<not> early p) threadLock s u x"
    then show "free_ok (\<lambda>p. \<not> early p) threadLock s' u x"
      using assms(2)
      by (cases "mpc s") (auto simp: main_step_def goto_def init_step_def free_ok_def split: if_splits option.splits)
  qed
  moreover have "bound_ok threadLock s'"
    using assms(2) b
    by (cases "mpc s")
       (auto simp: main_step_def goto_def init_step_def bound_ok_def less_Suc_eq split: if_splits option.splits)
  ultimately show ?thesis by simp
qed

lemma coord_thread:
  assumes "owner_inv s" "t < length (workers s)" "thread_step t s = Some s'"
  shows "coord_ok s'"
proof -
  from assms(1) have c: "coord_ok s" by (simp add: owner_inv_def)
  have ma: "mainLock s' = Held Coordinator \<longrightarrow> mainLock s = Held Coordinator"
    using assms(3)
    by (cases "wpc (workers s ! t)")
       (auto simp: thread_step_def jump_def put_worker_def Let_def split: if_splits)
  have th: "threadLock s' = Held Coordinator \<longrightarrow> threadLock s = Held Coordinator"
    using assms(3)
    by (cases "wpc (workers s ! t)")
       (auto simp: thread_step_def jump_def put_worker_def Let_def split: if_splits)
  have co: "countLock s' = Held Coordinator \<longrightarrow> countLock s = Held Coordinator"
    using assms(3)
    by (cases "wpc (workers s ! t)")
       (auto simp: thread_step_def jump_def put_worker_def Let_def split: if_splits)
  have de: "decreLock s' = Held Coordinator \<longrightarrow> decreLock s = Held Coordinator"
    using assms(3)
    by (cases "wpc (workers s ! t)")
       (auto simp: thread_step_def jump_def put_worker_def Let_def split: if_splits)
  from c ma th co de thread_step_frame[OF assms(3)] show ?thesis by (auto simp: coord_ok_def)
qed

lemma coord_main:
  assumes "owner_inv s" "main_step cfg s = Some s'"
  shows "coord_ok s'"
proof -
  from assms(1) have c: "coord_ok s" by (simp add: owner_inv_def)
  then show ?thesis using assms(2)
    by (cases "mpc s") (auto simp: main_step_def goto_def init_step_def coord_ok_def split: if_splits option.splits)
qed

lemma owner_jump:
  assumes "owner_inv s" "u < length (workers s)"
    "wpc (workers s ! u) = W_Waiting \<and> p = W_Reacquire
       \<or> wpc (workers s ! u) = W_Signal \<and> p = W_UnlockDecre"
  shows "owner_inv (jump u p s)"
proof -
  let ?s = "jump u p s"
  have w: "each_worker (free_ok h m) ?s"
    if e: "each_worker (free_ok h m) s" and m: "m ?s = m s"
      and h: "h p = h (wpc (workers s ! u))" for h m
  proof (rule each_worker_step[OF e e jump_frame(14) jump_others])
    from e assms(2) have "free_ok h m s u (workers s ! u)" by (rule each_workerD)
    then show "free_ok h m ?s u (workers ?s ! u)"
      using assms(2) m h by (simp add: jump_self free_ok_def)
  next
    fix v x assume "free_ok h m s v x"
    then show "free_ok h m ?s v x" using m by (simp add: free_ok_def)
  qed
  from assms(3) have h: "holds_main p = holds_main (wpc (workers s ! u))"
    "holds_count p = holds_count (wpc (workers s ! u))"
    "holds_decre p = holds_decre (wpc (workers s ! u))"
    "(\<not> early p) = (\<not> early (wpc (workers s ! u)))"
    by auto
  from assms(1) have c: "coord_ok ?s"
    by (simp add: owner_inv_def coord_ok_def jump_frame(1-14))
  from assms(1) have b: "bound_ok mainLock ?s" "bound_ok countLock ?s" "bound_ok decreLock ?s"
    "bound_ok threadLock ?s"
    by (simp_all add: owner_inv_def bound_ok_def jump_frame(1-14))
  from assms(1) have e: "each_worker (free_ok holds_main mainLock) s"
    "each_worker (free_ok holds_count countLock) s"
    "each_worker (free_ok holds_decre decreLock) s"
    "each_worker (free_ok (\<lambda>p. \<not> early p) threadLock) s"
    by (simp_all add: owner_inv_def)
  have "each_worker (free_ok holds_main mainLock) ?s"
    by (rule w[OF e(1) jump_frame(10) h(1)])
  moreover have "each_worker (free_ok holds_count countLock) ?s"
    by (rule w[OF e(2) jump_frame(8) h(2)])
  moreover have "each_worker (free_ok holds_decre decreLock) ?s"
    by (rule w[OF e(3) jump_frame(9) h(3)])
  moreover have "each_worker (free_ok (\<lambda>p. \<not> early p) threadLock) ?s"
    by (rule w[OF e(4) jump_frame(11) h(4)])
  ultimately show ?thesis using c b by (simp add: owner_inv_def)
qed

lemma owner_init: "owner_inv init_state"
  by (simp add: owner_inv_def init_state_def each_worker_def coord_ok_def bound_ok_def)

lemma owner_exec:
  assumes "owner_inv s" "exec cfg a s = Some s'"
  shows "owner_inv s'"
proof (cases a)
  case A_Main
  with assms(2) have m: "main_step cfg s = Some s'" by (simp add: exec_def)
  show ?thesis
    unfolding owner_inv_def
    using coord_main[OF assms(1) m] main_free_main[OF assms(1) m] count_free_main[OF assms(1) m]
      decre_free_main[OF assms(1) m] thread_free_main[OF assms(1) m]
    by simp
next
  case (A_Thread t)
  with assms(2) have t: "t < length (workers s)" and th: "thread_step t s = Some s'"
    by (auto simp: exec_def split: if_splits)
  show ?thesis
    unfolding owner_inv_def
    using coord_thread[OF assms(1) t th] main_free_thread[OF assms(1) t th]
      count_free_thread[OF assms(1) t th] decre_free_thread[OF assms(1) t th]
      thread_free_thread[OF assms(1) t th]
    by simp
next
  case (A_Signal t u)
  with assms(2) have c: "t < length (workers s)" "u < length (workers s)"
    "wpc (workers s ! t) = W_Signal" "wpc (workers s ! u) = W_Waiting"
    and s': "s' = jump t W_UnlockDecre (jump u W_Reacquire s)"
    by (auto simp: exec_def split: if_splits)
  from c(4) have i1: "owner_inv (jump u W_Reacquire s)"
    by (intro owner_jump[OF assms(1) c(2)]) simp
  from c have tu: "t \<noteq> u" by auto
  with c have p: "wpc (workers (jump u W_Reacquire s) ! t) = W_Signal" by (simp add: jump_others)
  from c(1) have "t < length (workers (jump u W_Reacquire s))" by (simp add: jump_frame(14))
  from i1 this show ?thesis unfolding s' by (rule owner_jump) (simp add: p)
next
  case (A_Spurious u)
  with assms show ?thesis by (auto simp: exec_def split: if_splits intro: owner_jump)
qed

lemma reachable_owner: "reachable cfg s \<Longrightarrow> owner_inv s"
  by (induction rule: reachable.induct) (auto intro: owner_init owner_exec)




lemma undestroyed_exec:
  assumes "p2_inv s" "undestroyed s" "exec cfg a s = Some s'"
  shows "undestroyed s'"
proof (cases a)
  case A_Main
  with assms(3) have m: "main_step cfg s = Some s'" by (simp add: exec_def)
  from assms(1) have "hold_ok s" by (simp add: p2_inv_def)
  with assms(2) m show ?thesis
    by (cases "mpc s")
       (auto simp: main_step_def goto_def init_step_def undestroyed_def hold_ok_def
          split: if_splits option.splits)
next
  case (A_Thread t)
  with assms(3) have t: "t < length (workers s)" and th: "thread_step t s = Some s'"
    by (auto simp: exec_def split: if_splits)
  from assms(1) t have "lock_ok takes_thread threadLock s t (workers s ! t)"
    by (simp add: p2_inv_def each_worker_def)
  with assms(2) th show ?thesis
    by (cases "wpc (workers s ! t)")
       (auto simp: thread_step_def jump_def put_worker_def Let_def undestroyed_def lock_ok_def
          split: if_splits)
next
  case (A_Signal t u)
  with assms(2,3) show ?thesis
    by (auto simp: exec_def undestroyed_def jump_frame split: if_splits)
next
  case (A_Spurious u)
  with assms(2,3) show ?thesis
    by (auto simp: exec_def undestroyed_def jump_frame split: if_splits)
qed

lemma reachable_undestroyed: "reachable cfg s \<Longrightarrow> undestroyed s"
proof (induction rule: reachable.induct)
  case reach_init
  show ?case by (simp add: undestroyed_def init_state_def)
next
  case (reach_step s a s')
  from reachable_inv[OF reach_step(1)] reach_step(3,2) show ?case by (rule undestroyed_exec)
qed

lemma holds_count_main: "holds_count p \<Longrightarrow> holds_main p"
  by (cases p) simp_all

lemma owner_iff:
  assumes "reachable cfg s" "t < length (workers s)"
  shows "mainLock s = Held (Worker t) \<longleftrightarrow> holds_main (wpc (workers s ! t))"
    "countLock s = Held (Worker t) \<longleftrightarrow> holds_count (wpc (workers s ! t))"
    "decreLock s = Held (Worker t) \<longleftrightarrow> holds_decre (wpc (workers s ! t))"
    "threadLock s = Held (Worker t) \<Longrightarrow> \<not> early (wpc (workers s ! t))"
    "takes_thread (wpc (workers s ! t)) \<Longrightarrow> threadLock s = Held (Worker t)"
proof -
  from assms(1) have i: "p2_inv s" and o: "owner_inv s"
    by (rule reachable_inv, rule reachable_owner)
  from i assms(2) have l:
    "lock_ok holds_main mainLock s t (workers s ! t)"
    "lock_ok holds_count countLock s t (workers s ! t)"
    "lock_ok holds_decre decreLock s t (workers s ! t)"
    "lock_ok takes_thread threadLock s t (workers s ! t)"
    by (simp_all add: p2_inv_def each_worker_def)
  from o assms(2) have f:
    "free_ok holds_main mainLock s t (workers s ! t)"
    "free_ok holds_count countLock s t (workers s ! t)"
    "free_ok holds_decre decreLock s t (workers s ! t)"
    "free_ok (\<lambda>p. \<not> early p) threadLock s t (workers s ! t)"
    by (simp_all add: owner_inv_def each_worker_def)
  from l(1) f(1) show "mainLock s = Held (Worker t) \<longleftrightarrow> holds_main (wpc (workers s ! t))"
    by (auto simp: lock_ok_def free_ok_def)
  from l(2) f(2) show "countLock s = Held (Worker t) \<longleftrightarrow> holds_count (wpc (workers s ! t))"
    by (auto simp: lock_ok_def free_ok_def)
  from l(3) f(3) show "decreLock s = Held (Worker t) \<longleftrightarrow> holds_decre (wpc (workers s ! t))"
    by (auto simp: lock_ok_def free_ok_def)
  from f(4) show "threadLock s = Held (Worker t) \<Longrightarrow> \<not> early (wpc (workers s ! t))"
    by (auto simp: free_ok_def)
  from l(4) show "takes_thread (wpc (workers s ! t)) \<Longrightarrow> threadLock s = Held (Worker t)"
    by (simp add: lock_ok_def)
qed

lemma held_worker:
  assumes "reachable cfg s" "t < length (workers s)"
  shows "held_by s (Worker t) =
           (if holds_count (wpc (workers s ! t)) then [CountLock] else [])
         @ (if holds_decre (wpc (workers s ! t)) then [DecreLock] else [])
         @ (if holds_main (wpc (workers s ! t)) then [MainLock] else [])
         @ (if threadLock s = Held (Worker t) then [ThreadLock] else [])"
  by (simp add: held_by_def owner_iff(1-3)[OF assms])

lemma count_free:
  assumes "reachable cfg s" "t < length (workers s)" "wpc (workers s ! t) = W_LockCount"
  shows "countLock s = Free"
proof (cases "countLock s")
  case Free
  then show ?thesis .
next
  case (Held k)
  show ?thesis
  proof (cases k)
    case Coordinator
    with Held reachable_owner[OF assms(1)] show ?thesis by (simp add: owner_inv_def coord_ok_def)
  next
    case (Worker u)
    with Held reachable_owner[OF assms(1)] have u: "u < length (workers s)"
      by (simp add: owner_inv_def bound_ok_def)
    from Held Worker owner_iff(2)[OF assms(1) u] have "holds_count (wpc (workers s ! u))" by simp
    then have c: "holds_main (wpc (workers s ! u))" "wpc (workers s ! u) \<noteq> W_LockCount"
      by (auto simp: holds_count_main)
    with owner_iff(1)[OF assms(1) u] have "mainLock s = Held (Worker u)" by simp
    moreover from assms(3) owner_iff(1)[OF assms(1,2)] have "mainLock s = Held (Worker t)" by simp
    ultimately have "u = t" by simp
    with c(2) assms(3) show ?thesis by simp
  qed
next
  case Destroyed
  with reachable_undestroyed[OF assms(1)] show ?thesis by (simp add: undestroyed_def)
qed

lemma coordinator_iff:
  assumes "reachable cfg s"
  shows "held_by s Coordinator =
           (if spawning (mpc s) then [ThreadLock] else if main_holds (mpc s) then [MainLock] else [])"
proof -
  from assms(1) have i: "p2_inv s" and o: "owner_inv s"
    by (rule reachable_inv, rule reachable_owner)
  from i have "hold_ok s" "spawn_ok s" by (simp_all add: p2_inv_def)
  moreover from o have "coord_ok s" by (simp add: owner_inv_def)
  moreover have "\<not> (spawning (mpc s) \<and> main_holds (mpc s))" by (cases "mpc s") auto
  ultimately show ?thesis
    by (auto simp: held_by_def hold_ok_def spawn_ok_def coord_ok_def)
qed

lemma thread_kept:
  assumes "reachable cfg s" "threadLock s = Held (Worker t)" "exec cfg a s = Some s'"
  shows "threadLock s' = Held (Worker t)"
proof (cases a)
  case A_Main
  with assms(3) have m: "main_step cfg s = Some s'" by (simp add: exec_def)
  from assms(1) have i: "p2_inv s" and o: "owner_inv s"
    by (rule reachable_inv, rule reachable_owner)
  from o assms(2) have t: "t < length (workers s)" by (simp add: owner_inv_def bound_ok_def)
  from owner_iff(4)[OF assms(1) t assms(2)] i t have "after_spawn (mpc s)"
    by (simp add: p2_inv_def each_worker_def phase_ok_def)
  with m assms(2) show ?thesis
    by (cases "mpc s") (auto simp: main_step_def goto_def split: if_splits)
next
  case (A_Thread u)
  with assms(3) have "thread_step u s = Some s'" by (auto simp: exec_def split: if_splits)
  with assms(2) show ?thesis
    by (cases "wpc (workers s ! u)")
       (auto simp: thread_step_def jump_def put_worker_def Let_def split: if_splits)
next
  case (A_Signal v u)
  with assms(2,3) show ?thesis by (auto simp: exec_def jump_frame split: if_splits)
next
  case (A_Spurious u)
  with assms(2,3) show ?thesis by (auto simp: exec_def jump_frame split: if_splits)
qed

lemma suspended_worker:
  assumes "reachable cfg s" "t < length (workers s)" "suspended s (Worker t)"
  shows "length (held_by s (Worker t)) \<le> 1 \<and> exec cfg (A_Thread t) s = None"
proof -
  from assms(1) have i: "p2_inv s" by (rule reachable_inv)
  note h = held_worker[OF assms(1,2)] owner_iff(4)[OF assms(1,2)]
  note sp = spin_started[OF i assms(2)]
  note cf = count_free[OF assms(1,2)]
  show ?thesis
  proof (cases "wpc (workers s ! t)")
    case W_LockMain
    with assms(3) h show ?thesis by (auto simp: suspended_def exec_def thread_step_def)
  next
    case W_LockThread
    with assms(3) h show ?thesis by (auto simp: suspended_def exec_def thread_step_def)
  next
    case W_Spin
    with assms(3) sp show ?thesis by (simp add: suspended_def)
  next
    case W_Waiting
    with assms(3) h show ?thesis by (auto simp: suspended_def exec_def thread_step_def)
  next
    case W_Reacquire
    with assms(3) h show ?thesis by (auto simp: suspended_def exec_def thread_step_def)
  next
    case W_LockCount
    with assms(3) cf show ?thesis by (simp add: suspended_def)
  next
    case W_LockDecre
    with assms(3) h show ?thesis by (auto simp: suspended_def exec_def thread_step_def)
  qed (use assms(3) in \<open>simp_all add: suspended_def\<close>)
qed

lemma unsuspended:
  assumes "reachable cfg s" "t < length (workers s)"
    "wpc (workers s ! t) = W_Spin \<or> wpc (workers s ! t) = W_CondWait
       \<or> wpc (workers s ! t) = W_LockCount"
  shows "\<not> suspended s (Worker t)
       \<and> held_by s (Worker t)
           = MainLock # (if threadLock s = Held (Worker t) then [ThreadLock] else [])"
proof -
  from assms(1) have i: "p2_inv s" by (rule reachable_inv)
  from assms(3) spin_started[OF i assms(2)] count_free[OF assms(1,2)]
  have "\<not> suspended s (Worker t)" by (auto simp: suspended_def)
  moreover from assms(3) held_worker[OF assms(1,2)]
  have "held_by s (Worker t)
           = MainLock # (if threadLock s = Held (Worker t) then [ThreadLock] else [])"
    by auto
  ultimately show ?thesis by simp
qed

lemma run_early:
  "run cfg_two (replicate 15 A_Main @ replicate 2 (A_Thread 0)) init_state = Some st_early"
  by code_simp

lemma run_spin: "run cfg_two spin_run init_state = Some st_spin"
  by code_simp

lemma run_sleep: "run cfg_two sleep_run init_state = Some st_sleep"
  by code_simp

lemma run_woken: "run cfg_two woken_run init_state = Some st_woken"
  by code_simp

lemma run_decre: "run cfg_two decre_run init_state = Some st_decre"
  by code_simp

text \<open>
  Claim C5, as amended. A task that is suspended holds at most one guard, but that guard
  can be one that other tasks need. A worker that is blocked on \<^verbatim>\<open>threadLock\<close> holds
  \<^verbatim>\<open>mainLock\<close>: before the start that is the first worker, waiting for \<^verbatim>\<open>main\<close> to unlock
  \<^verbatim>\<open>threadLock\<close> after line 162, while the other workers are blocked on \<^verbatim>\<open>mainLock\<close>. This
  is how the workers wait for the start: a worker that reaches its busy-wait finds the flag
  set. At the busy-wait, at the call of \<^verbatim>\<open>pthread_cond_wait\<close> and at the lock of
  \<^verbatim>\<open>countLock\<close> a worker is not suspended, and holds \<^verbatim>\<open>mainLock\<close>, and \<^verbatim>\<open>threadLock\<close> too if
  it is the one that locked it. The worker that has locked \<^verbatim>\<open>threadLock\<close> keeps it for
  ever, since line 69 destroys it locked and nothing unlocks it: it holds it while it
  waits on the condition, while it
  takes \<^verbatim>\<open>mainLock\<close> again and while it is blocked on \<^verbatim>\<open>decreLock\<close>, and it holds nothing
  else there, \<^verbatim>\<open>pthread_cond_wait\<close> having released \<^verbatim>\<open>mainLock\<close>; the other workers hold
  nothing at these points, nor at their first statement. No worker is ever blocked on
  \<^verbatim>\<open>countLock\<close>, which is free whenever a worker asks for it. \<^verbatim>\<open>main\<close> holds nothing while
  it is blocked or in the sleep of line 171, and it holds \<^verbatim>\<open>mainLock\<close> all through its wait
  loop with the sleep of line 178.
\<close>

theorem guards_at_suspension:
  assumes "reachable cfg s" "t < length (workers s)"
  shows "(suspended s (Worker t) \<longrightarrow>
            length (held_by s (Worker t)) \<le> 1 \<and> exec cfg (A_Thread t) s = None)
       \<and> length (held_by s Coordinator) \<le> 1
       \<and> (wpc (workers s ! t) = W_LockThread \<longrightarrow> held_by s (Worker t) = [MainLock])
       \<and> (wpc (workers s ! t) = W_LockMain \<longrightarrow> held_by s (Worker t) = [])
       \<and> (wpc (workers s ! t) = W_Waiting \<or> wpc (workers s ! t) = W_Reacquire
            \<or> wpc (workers s ! t) = W_LockDecre \<longrightarrow>
            held_by s (Worker t) = (if threadLock s = Held (Worker t) then [ThreadLock] else []))
       \<and> (wpc (workers s ! t) = W_Spin \<longrightarrow> start s = 1)
       \<and> (wpc (workers s ! t) = W_LockCount \<longrightarrow> countLock s = Free)
       \<and> (wpc (workers s ! t) = W_Spin \<or> wpc (workers s ! t) = W_CondWait
            \<or> wpc (workers s ! t) = W_LockCount \<longrightarrow>
            \<not> suspended s (Worker t)
          \<and> held_by s (Worker t)
              = MainLock # (if threadLock s = Held (Worker t) then [ThreadLock] else []))
       \<and> (takes_thread (wpc (workers s ! t)) \<longrightarrow> threadLock s = Held (Worker t))
       \<and> (\<forall>a s'. threadLock s = Held (Worker t) \<and> exec cfg a s = Some s' \<longrightarrow>
            threadLock s' = Held (Worker t))
       \<and> (mpc s = M_WaitTest \<longrightarrow> held_by s Coordinator = [MainLock])
       \<and> (mpc s = M_LockThread \<or> mpc s = M_Sleep \<or> mpc s = M_LockMain \<longrightarrow>
            held_by s Coordinator = [])"
proof -
  from assms(1) have i: "p2_inv s" by (rule reachable_inv)
  note h = held_worker[OF assms] owner_iff(4)[OF assms]
  have 1: "wpc (workers s ! t) = W_LockThread \<longrightarrow> held_by s (Worker t) = [MainLock]"
    using h by auto
  have 2: "wpc (workers s ! t) = W_LockMain \<longrightarrow> held_by s (Worker t) = []"
    using h by auto
  have 3: "wpc (workers s ! t) = W_Waiting \<or> wpc (workers s ! t) = W_Reacquire
            \<or> wpc (workers s ! t) = W_LockDecre \<longrightarrow>
            held_by s (Worker t) = (if threadLock s = Held (Worker t) then [ThreadLock] else [])"
    using h(1) by auto
  have 4: "length (held_by s Coordinator) \<le> 1"
    "mpc s = M_WaitTest \<longrightarrow> held_by s Coordinator = [MainLock]"
    "mpc s = M_LockThread \<or> mpc s = M_Sleep \<or> mpc s = M_LockMain \<longrightarrow>
       held_by s Coordinator = []"
    using coordinator_iff[OF assms(1)] by auto
  from 1 2 3 4 suspended_worker[OF assms] spin_started[OF i assms(2)] count_free[OF assms]
    owner_iff(5)[OF assms] thread_kept[OF assms(1)] unsuspended[OF assms]
  show ?thesis by blast
qed

theorem guards_at_suspension_witness:
  "reachable cfg_two st_early \<and> (0::nat) < length (workers st_early)
     \<and> suspended st_early (Worker 0) \<and> wpc (workers st_early ! 0) = W_LockThread
     \<and> held_by st_early (Worker 0) = [MainLock] \<and> exec cfg_two (A_Thread 0) st_early = None
   \<and> reachable cfg_one st_blocked \<and> (0::nat) < length (workers st_blocked)
     \<and> suspended st_blocked (Worker 0) \<and> wpc (workers st_blocked ! 0) = W_Waiting
     \<and> threadLock st_blocked = Held (Worker 0) \<and> held_by st_blocked (Worker 0) = [ThreadLock]
   \<and> reachable cfg_two st_sleep \<and> mpc st_sleep = M_WaitTest
     \<and> suspended st_sleep Coordinator \<and> held_by st_sleep Coordinator = [MainLock]
   \<and> reachable cfg_two st_woken \<and> (0::nat) < length (workers st_woken)
     \<and> suspended st_woken (Worker 0) \<and> wpc (workers st_woken ! 0) = W_Reacquire
     \<and> held_by st_woken (Worker 0) = [ThreadLock] \<and> exec cfg_two (A_Thread 0) st_woken = None
   \<and> reachable cfg_two st_decre \<and> (0::nat) < length (workers st_decre)
     \<and> suspended st_decre (Worker 0) \<and> wpc (workers st_decre ! 0) = W_LockDecre
     \<and> held_by st_decre (Worker 0) = [ThreadLock] \<and> exec cfg_two (A_Thread 0) st_decre = None
   \<and> reachable cfg_two st_spin \<and> (0::nat) < length (workers st_spin)
     \<and> wpc (workers st_spin ! 0) = W_Spin \<and> start st_spin = 1
     \<and> \<not> suspended st_spin (Worker 0)
     \<and> held_by st_spin (Worker 0) = [MainLock, ThreadLock]"
proof -
  have r: "reachable cfg_two st_early" "reachable cfg_two st_sleep" "reachable cfg_two st_woken"
    "reachable cfg_two st_decre" "reachable cfg_two st_spin"
    by (rule run_reachable[OF reach_init run_early], rule run_reachable[OF reach_init run_sleep],
        rule run_reachable[OF reach_init run_woken], rule run_reachable[OF reach_init run_decre],
        rule run_reachable[OF reach_init run_spin])
  have l: "(0::nat) < length (workers st_early)" "(0::nat) < length (workers st_blocked)"
    "(0::nat) < length (workers st_sleep)" "(0::nat) < length (workers st_woken)"
    "(0::nat) < length (workers st_decre)" "(0::nat) < length (workers st_spin)"
    by (simp_all add: st_early_def st_blocked_def st_sleep_def st_woken_def st_decre_def
          st_spin_def)
  have s: "suspended st_early (Worker 0)" "suspended st_blocked (Worker 0)"
    "suspended st_sleep Coordinator" "suspended st_woken (Worker 0)"
    "suspended st_decre (Worker 0)"
    by (simp_all add: suspended_def st_early_def st_blocked_def st_sleep_def st_woken_def
          st_decre_def)
  from guards_at_suspension[OF r(1) l(1)] guards_at_suspension[OF reach_blocked l(2)]
    guards_at_suspension[OF r(2) l(3)] guards_at_suspension[OF r(3) l(4)]
    guards_at_suspension[OF r(4) l(5)] guards_at_suspension[OF r(5) l(6)] r reach_blocked s
  show ?thesis
    by (simp add: st_early_def st_blocked_def st_sleep_def st_woken_def st_decre_def st_spin_def)
qed

theorem guards_at_suspension_counterexample:
  "reachable cfg_two st_early \<and> start st_early = 0
     \<and> wpc (workers st_early ! 0) = W_LockThread \<and> suspended st_early (Worker 0)
     \<and> exec cfg_two (A_Thread 0) st_early = None
     \<and> held_by st_early (Worker 0) = [MainLock]
     \<and> wpc (workers st_early ! 1) = W_LockMain \<and> suspended st_early (Worker 1)
     \<and> exec cfg_two (A_Thread 1) st_early = None
   \<and> reachable cfg_two st_sleep \<and> start st_sleep = 1
     \<and> mpc st_sleep = M_WaitTest \<and> suspended st_sleep Coordinator
     \<and> held_by st_sleep Coordinator = [MainLock]
     \<and> wpc (workers st_sleep ! 1) = W_LockMain \<and> suspended st_sleep (Worker 1)
     \<and> exec cfg_two (A_Thread 1) st_sleep = None"
proof -
  have "reachable cfg_two st_early" "reachable cfg_two st_sleep"
    by (rule run_reachable[OF reach_init run_early], rule run_reachable[OF reach_init run_sleep])
  moreover have "exec cfg_two (A_Thread 0) st_early = None"
    "exec cfg_two (A_Thread 1) st_early = None" "exec cfg_two (A_Thread 1) st_sleep = None"
    by code_simp+
  moreover have "held_by st_early (Worker 0) = [MainLock]"
    "held_by st_sleep Coordinator = [MainLock]"
    by code_simp+
  moreover have "suspended st_early (Worker 0)" "suspended st_early (Worker 1)"
    "suspended st_sleep Coordinator" "suspended st_sleep (Worker 1)"
    by (simp_all add: suspended_def st_early_def st_sleep_def)
  ultimately show ?thesis by (simp add: st_early_def st_sleep_def)
qed

section \<open>The integers stay in range\<close>

text \<open>
  The model computes on unbounded integers. The arguments are \<^verbatim>\<open>int\<close> values, and in
  every reachable state the live-worker count, the counter, the expected value and the
  loop variable \<^verbatim>\<open>i\<close> (also after its increment) lie within \<^verbatim>\<open>long\<close> and \<^verbatim>\<open>int\<close>: no
  arithmetic of the program wraps around.
\<close>

lemma atoi_range: "atoi str = Some v \<Longrightarrow> int_range v"
  by (auto simp: atoi_def int_range_def Let_def split: if_splits)

lemma parse_range:
  "parse_threads cfg = Some n \<Longrightarrow> int_range n" "parse_loops cfg = Some l \<Longrightarrow> int_range l"
  by (auto simp: parse_threads_def parse_loops_def THREADS_def LOOPS_def atoi_range
           split: if_splits)
     (simp_all add: int_range_def INT_MIN_def INT_MAX_def)

lemma args_range: "reachable cfg s \<Longrightarrow> int_range (num_threads s) \<and> int_range (num_loops s)"
proof (induction rule: reachable.induct)
  case reach_init
  show ?case by (simp add: init_state_def int_range_def INT_MIN_def INT_MAX_def)
next
  case (reach_step s a s')
  show ?case
  proof (cases a)
    case A_Main
    with reach_step.hyps(2) have "main_step cfg s = Some s'" by (simp add: exec_def)
    with reach_step.IH parse_range[of cfg] show ?thesis
      by (cases "mpc s")
         (auto simp: main_step_def goto_def init_step_def split: if_splits option.splits lock_id.splits)
  next
    case (A_Thread t)
    with reach_step.hyps(2) have "thread_step t s = Some s'"
      by (auto simp: exec_def split: if_splits)
    from thread_step_frame[OF this] reach_step.IH show ?thesis by simp
  next
    case (A_Signal t u)
    with reach_step show ?thesis by (auto simp: exec_def jump_frame split: if_splits)
  next
    case (A_Spurious u)
    with reach_step show ?thesis by (auto simp: exec_def jump_frame split: if_splits)
  qed
qed

lemma sum_list_bound:
  "(\<And>t. t < length ws \<Longrightarrow> 0 \<le> f (ws ! t) \<and> f (ws ! t) \<le> (c::int))
     \<Longrightarrow> 0 \<le> sum_list (map f ws) \<and> sum_list (map f ws) \<le> int (length ws) * c"
proof (induction ws)
  case Nil
  then show ?case by simp
next
  case (Cons w ws)
  have "0 \<le> f w \<and> f w \<le> c" using Cons.prems[of 0] by simp
  moreover have "0 \<le> sum_list (map f ws) \<and> sum_list (map f ws) \<le> int (length ws) * c"
  proof (rule Cons.IH)
    fix t assume "t < length ws"
    then show "0 \<le> f (ws ! t) \<and> f (ws ! t) \<le> c" using Cons.prems[of "Suc t"] by simp
  qed
  ultimately show ?case by (simp add: algebra_simps)
qed

lemma no_overflow:
  assumes "reachable cfg s"
  shows "int_range (num_threads s) \<and> int_range (num_loops s)
       \<and> 0 \<le> threads s \<and> threads s \<le> max 0 (num_threads s)
       \<and> 0 \<le> counter s \<and> counter s \<le> max 0 (num_threads s) * max 0 (num_loops s)
       \<and> max 0 (num_threads s) * max 0 (num_loops s) < LONG_MAX
       \<and> \<bar>num_loops s * num_threads s\<bar> < LONG_MAX
       \<and> (\<forall>w \<in> set (workers s). 0 \<le> loop_i w \<and> loop_i w \<le> max 0 (num_loops s)
             \<and> (wpc w = W_UnlockCount \<longrightarrow> loop_i w + 1 \<le> INT_MAX))"
proof -
  from assms have i: "p2_inv s" by (rule reachable_inv)
  from args_range[OF assms] have r: "int_range (num_threads s)" "int_range (num_loops s)"
    by simp_all
  from i have len: "int (length (workers s)) \<le> max 0 (num_threads s)"
    by (simp add: p2_inv_def length_ok_def)
  have lp: "loop_ok s t (workers s ! t)" if "t < length (workers s)" for t
    using i that by (simp add: p2_inv_def each_worker_def)
  have "0 \<le> live (workers s ! t) \<and> live (workers s ! t) \<le> 1" if "t < length (workers s)" for t
    by (simp add: live_def)
  from sum_list_bound[of "workers s" live 1, OF this]
  have "sum_list (map live (workers s)) \<le> int (length (workers s))" by simp
  moreover have "0 \<le> pending (mpc s)" by (cases "mpc s") auto
  ultimately have th: "threads s \<le> max 0 (num_threads s)"
    using i len by (simp add: p2_inv_def threads_ok_def)
  have "0 \<le> increments (workers s ! t) \<and> increments (workers s ! t) \<le> max 0 (num_loops s)"
    if "t < length (workers s)" for t
    using lp[OF that] by (auto simp: loop_ok_def increments_def)
  from sum_list_bound[of "workers s" increments "max 0 (num_loops s)", OF this] i
  have c: "0 \<le> counter s" "counter s \<le> int (length (workers s)) * max 0 (num_loops s)"
    by (simp_all add: p2_inv_def counter_ok_def)
  from len have "int (length (workers s)) * max 0 (num_loops s)
                  \<le> max 0 (num_threads s) * max 0 (num_loops s)"
    by (intro mult_right_mono) simp_all
  with c have cb: "counter s \<le> max 0 (num_threads s) * max 0 (num_loops s)" by simp
  from r have a: "max 0 (num_threads s) \<le> 2147483647" "max 0 (num_loops s) \<le> 2147483647"
    "\<bar>num_threads s\<bar> \<le> 2147483648" "\<bar>num_loops s\<bar> \<le> 2147483648"
    by (auto simp: int_range_def INT_MIN_def INT_MAX_def)
  have "max 0 (num_threads s) * max 0 (num_loops s) \<le> 2147483647 * 2147483647"
    using a(1,2) by (intro mult_mono) simp_all
  then have p1: "max 0 (num_threads s) * max 0 (num_loops s) < LONG_MAX"
    by (simp add: LONG_MAX_def)
  have "\<bar>num_loops s\<bar> * \<bar>num_threads s\<bar> \<le> 2147483648 * 2147483648"
    using a(3,4) by (intro mult_mono) simp_all
  then have p2: "\<bar>num_loops s * num_threads s\<bar> < LONG_MAX"
    by (simp add: LONG_MAX_def abs_mult)
  have w: "0 \<le> loop_i w \<and> loop_i w \<le> max 0 (num_loops s)
             \<and> (wpc w = W_UnlockCount \<longrightarrow> loop_i w + 1 \<le> INT_MAX)"
    if "w \<in> set (workers s)" for w
  proof -
    from that obtain t where "t < length (workers s)" "w = workers s ! t"
      by (auto simp: in_set_conv_nth)
    with lp[of t] r(2) show ?thesis by (auto simp: loop_ok_def int_range_def)
  qed
  from r threads_nonneg[OF i] th c(1) cb p1 p2 w show ?thesis by blast
qed

section \<open>The first revision loses a decrement\<close>

text \<open>
  In the first revision two workers can read the live-worker count 2 one after the other
  and both write 1. Then both have returned, the count is 1 for ever, and \<^verbatim>\<open>main\<close> spins
  on line 110 without end.
\<close>

lemma first_revision_lost_decrement:
  "run_v1 cfg_lost lost_run init_state = Some st_lost
     \<and> threads st_lost = 1 \<and> wpc (workers st_lost ! 0) = W_Done
     \<and> wpc (workers st_lost ! 1) = W_Done
     \<and> exec_v1 cfg_lost A_Main st_lost = Some st_lost
     \<and> exec_v1 cfg_lost (A_Thread 0) st_lost = None
     \<and> exec_v1 cfg_lost (A_Thread 1) st_lost = None"
  by code_simp

end
